theory Spec2Isabelle
  imports Main "HOL-Library.Multiset" "HOL-Library.Monad_Syntax"
begin

section \<open>The bridge-crossing program (cross-bridge.cpp)\<close>

text \<open>
  The program holds a vector \<open>waitingPeople\<close> of people, each with a name and a speed
  (the minutes that person needs to cross), and computes a total crossing time in two
  ways: \<open>Bridge::crossNaively\<close> and \<open>Bridge::crossOptimally\<close>. Both member functions
  are embedded below as functions from the vector before the call to the triple
  (returned total, lines written to the standard output, vector after the call).
\<close>

subsection \<open>The C++ type int\<close>

text \<open>
  Speeds and totals have the C++ type \<open>int\<close> (32 bits, signed). Signed overflow has no
  defined result in C++, so a sum is modelled as a mathematical integer together with the
  check that it is representable: an addition that leaves the range gives \<open>None\<close>, and
  so does every computation that contains it. Indices and sizes (\<open>int i\<close>,
  \<open>int n = waitingPeople.size()\<close>) are taken to fit: the vector has fewer than
  \<open>2^31\<close> entries.
\<close>

definition INT_MAX :: int where
  "INT_MAX = 2147483647"

definition INT_MIN :: int where
  "INT_MIN = - 2147483648"

definition int_ok :: "int \<Rightarrow> bool" where
  "int_ok v \<longleftrightarrow> INT_MIN \<le> v \<and> v \<le> INT_MAX"

definition add_int :: "int \<Rightarrow> int \<Rightarrow> int option" where
  "add_int a b = (if int_ok (a + b) then Some (a + b) else None)"

subsection \<open>class Person\<close>

record Person =
  name :: string
  speed :: int

text \<open>
  The lines written to \<open>std::cout\<close>. A person is printed as \<open>(name,speed)\<close>; the model
  keeps the person instead of the text.
\<close>

datatype line =
    Blank
  | Banner string
  | FastestOverall Person
  | CrossPair Person Person
  | Returns Person
  | Crosses Person

fun isEvent :: "line \<Rightarrow> bool" where
  "isEvent (CrossPair p q) = True"
| "isEvent (Returns p) = True"
| "isEvent (Crosses p) = True"
| "isEvent l = False"

subsection \<open>Bridge::crossOptimally\<close>

text \<open>
  The two candidate costs of one round of the main loop; C++ adds from left to right.
\<close>

definition totalShielding :: "Person list \<Rightarrow> int option" where
  "totalShielding w =
     (let n = length w in
      do {
        a \<leftarrow> add_int (speed (w ! 1)) (speed (w ! 0));
        b \<leftarrow> add_int a (speed (w ! (n - 1)));
        add_int b (speed (w ! 1))
      })"

definition totalNaive :: "Person list \<Rightarrow> int option" where
  "totalNaive w =
     (let n = length w in
      do {
        a \<leftarrow> add_int (speed (w ! (n - 1))) (speed (w ! 0));
        b \<leftarrow> add_int a (speed (w ! (n - 2)));
        add_int b (speed (w ! 0))
      })"

definition shieldingLines :: "Person list \<Rightarrow> line list" where
  "shieldingLines w =
     (let n = length w in
      [CrossPair (w ! 1) (w ! 0), Returns (w ! 0),
       CrossPair (w ! (n - 1)) (w ! (n - 2)), Returns (w ! 1)])"

definition naiveLines :: "Person list \<Rightarrow> line list" where
  "naiveLines w =
     (let n = length w in
      [CrossPair (w ! (n - 1)) (w ! 0), Returns (w ! 0),
       CrossPair (w ! (n - 2)) (w ! 0), Returns (w ! 0)])"

text \<open>
  The body of \<open>while (waitingPeople.size() >= 4)\<close> up to the two \<open>pop_back\<close> calls: the
  new total and the output. It is only run on vectors of at least four people.
\<close>

definition loopBody :: "Person list \<Rightarrow> int \<Rightarrow> line list \<Rightarrow> (int \<times> line list) option" where
  "loopBody w totalSpeed out =
     do {
       ts \<leftarrow> totalShielding w;
       tn \<leftarrow> totalNaive w;
       if ts < tn
       then do { t \<leftarrow> add_int totalSpeed ts; Some (t, out @ shieldingLines w) }
       else do { t \<leftarrow> add_int totalSpeed tn; Some (t, out @ naiveLines w) }
     }"

function crossLoop ::
  "Person list \<Rightarrow> int \<Rightarrow> line list \<Rightarrow> (Person list \<times> int \<times> line list) option" where
  "crossLoop w totalSpeed out =
     (if 4 \<le> length w then
        (case loopBody w totalSpeed out of
           None \<Rightarrow> None
         | Some (totalSpeed', out') \<Rightarrow> crossLoop (butlast (butlast w)) totalSpeed' out')
      else Some (w, totalSpeed, out))"
  by pat_completeness auto
termination
  by (relation "measure (\<lambda>(w, totalSpeed, out). length w)") auto

declare crossLoop.simps [simp del]

text \<open>The cases of zero to three people left, after the loop.\<close>

definition baseCases ::
  "Person list \<Rightarrow> int \<Rightarrow> line list \<Rightarrow> (Person list \<times> int \<times> line list) option" where
  "baseCases w totalSpeed out =
     (if length w = 0 then
        do { t \<leftarrow> add_int totalSpeed 0; Some (w, t, out) }
      else if length w = 1 then
        do {
          t \<leftarrow> add_int totalSpeed (speed (w ! 0));
          Some (butlast w, t, out @ [Crosses (w ! 0)])
        }
      else if length w = 2 then
        do {
          t \<leftarrow> add_int totalSpeed (speed (w ! 1));
          Some (butlast (butlast w), t, out @ [CrossPair (w ! 1) (w ! 0)])
        }
      else if length w = 3 then
        do {
          a \<leftarrow> add_int (speed (w ! 0)) (speed (w ! 1));
          b \<leftarrow> add_int a (speed (w ! 2));
          t \<leftarrow> add_int totalSpeed b;
          Some (butlast (butlast (butlast w)), t,
                out @ [CrossPair (w ! 2) (w ! 0), Returns (w ! 0), CrossPair (w ! 1) (w ! 0)])
        }
      else Some (w, totalSpeed, out))"

text \<open>
  \<open>std::sort\<close> with \<open>Person::operator<\<close> orders the vector by speed. It does not say in
  which order people of equal speed end up; the model takes the stable order. The
  order among equal speeds changes the names printed, never the total (lemma
  \<open>sort_order_irrelevant\<close> below).
\<close>

definition crossOptimally :: "Person list \<Rightarrow> (int \<times> line list \<times> Person list) option" where
  "crossOptimally waitingPeople =
     do {
       (w, t, out) \<leftarrow> crossLoop (sort_key speed waitingPeople) 0
                        [Blank, Banner ''Optimal sequence of bridge crossings:''];
       (w', t', out') \<leftarrow> baseCases w t out;
       Some (t', out', w')
     }"

subsection \<open>Bridge::crossNaively\<close>

text \<open>
  The scan for the fastest person starts from a person named \<open>maxint\<close> with speed
  \<open>INT_MAX\<close> and index \<open>-1\<close>, and replaces it at every strictly smaller speed.
\<close>

fun findFastest :: "Person list \<Rightarrow> int \<Rightarrow> Person \<times> int \<Rightarrow> Person \<times> int" where
  "findFastest [] i (fastest, fastestindex) = (fastest, fastestindex)"
| "findFastest (p # ps) i (fastest, fastestindex) =
     (if speed p < speed fastest
      then findFastest ps (i + 1) (\<lparr>name = name p, speed = speed p\<rparr>, i)
      else findFastest ps (i + 1) (fastest, fastestindex))"

text \<open>Everybody but the person at \<open>fastestindex\<close> is copied into the queue.\<close>

fun fillQueue :: "Person list \<Rightarrow> int \<Rightarrow> int \<Rightarrow> Person list" where
  "fillQueue [] i fastestindex = []"
| "fillQueue (p # ps) i fastestindex =
     (if i \<noteq> fastestindex
      then \<lparr>name = name p, speed = speed p\<rparr> # fillQueue ps (i + 1) fastestindex
      else fillQueue ps (i + 1) fastestindex)"

text \<open>\<open>while (q.size() > 0)\<close>: the front of the queue is the head of the list.\<close>

fun processQueue ::
  "Person list \<Rightarrow> Person \<Rightarrow> int \<Rightarrow> line list \<Rightarrow> (int \<times> line list) option" where
  "processQueue [] fastest totalSpeed out = Some (totalSpeed, out)"
| "processQueue (p # q) fastest totalSpeed out =
     do {
       t \<leftarrow> add_int totalSpeed (speed p);
       if 0 < length q
       then do {
         t' \<leftarrow> add_int t (speed fastest);
         processQueue q fastest t' (out @ [CrossPair p fastest, Returns fastest])
       }
       else processQueue q fastest t (out @ [CrossPair p fastest])
     }"

definition crossNaively :: "Person list \<Rightarrow> (int \<times> line list \<times> Person list) option" where
  "crossNaively waitingPeople =
     (if length waitingPeople = 0 then Some (0, [], waitingPeople)
      else if length waitingPeople = 1
      then Some (speed (waitingPeople ! 0), [], waitingPeople)
      else
        (let (fastest, fastestindex) =
               findFastest waitingPeople 0 (\<lparr>name = ''maxint'', speed = INT_MAX\<rparr>, - 1);
             q = fillQueue waitingPeople 0 fastestindex
         in do {
           (t, out) \<leftarrow> processQueue q fastest 0
                         [Blank, FastestOverall fastest, Blank,
                          Banner ''Naive sequence of bridge crossings:''];
           Some (t, out, waitingPeople)
         }))"

subsection \<open>main\<close>

text \<open>
  \<open>main\<close> calls \<open>crossNaively\<close> and then \<open>crossOptimally\<close> on the same \<open>Bridge\<close>
  object, without reading the file again in between.
\<close>

definition runBoth :: "Person list \<Rightarrow> (int \<times> int \<times> Person list) option" where
  "runBoth waitingPeople =
     do {
       (naive, out, w) \<leftarrow> crossNaively waitingPeople;
       (optimal, out', w') \<leftarrow> crossOptimally w;
       Some (naive, optimal, w')
     }"


section \<open>Closed forms of the two totals, and the inputs the source assumes\<close>

text \<open>
  The functions of this section are not part of the program; the proofs compare the
  program with them. \<open>greedyTotal\<close> is the total of the naive method as a formula of
  the speeds: everybody but one fastest person crosses once, and that fastest person
  walks back after every crossing but the last (lemma \<open>crossNaively_Some\<close>).
\<close>

definition greedyTotal :: "int list \<Rightarrow> int" where
  "greedyTotal xs =
     (if length xs = 0 then 0
      else if length xs = 1 then xs ! 0
      else sum_list xs + (int (length xs) - 3) * Min (set xs))"

text \<open>
  \<open>shieldTotal\<close> is the total of the shielding method as a function of the speeds in
  ascending order, without the overflow checks (lemma \<open>crossOptimally_Some\<close>).
\<close>

function shieldTotal :: "int list \<Rightarrow> int" where
  "shieldTotal s =
     (if 4 \<le> length s then
        min (s ! 1 + s ! 0 + s ! (length s - 1) + s ! 1)
            (s ! (length s - 1) + s ! 0 + s ! (length s - 2) + s ! 0)
        + shieldTotal (butlast (butlast s))
      else if length s = 0 then 0
      else if length s = 1 then s ! 0
      else if length s = 2 then s ! 1
      else s ! 0 + s ! 1 + s ! 2)"
  by pat_completeness auto
termination
  by (relation "measure length") auto

declare shieldTotal.simps [simp del]


text \<open>
  The inputs the header of the source file assumes (its assumptions 4 and 5): the speeds
  are positive integers, here of type \<open>int\<close>, and the total is less than \<open>MAXINT\<close>.
  The total is taken to be the larger one, that of the naive method. On these inputs
  both functions return (lemmas \<open>documented_naive\<close> and \<open>documented_optimal\<close>).
\<close>

definition positiveSpeeds :: "Person list \<Rightarrow> bool" where
  "positiveSpeeds w \<longleftrightarrow> (\<forall>p\<in>set w. 0 < speed p \<and> speed p \<le> INT_MAX)"

definition documented :: "Person list \<Rightarrow> bool" where
  "documented w \<longleftrightarrow> positiveSpeeds w \<and> greedyTotal (map speed w) < INT_MAX"

definition classicPeople :: "Person list" where
  "classicPeople =
     [\<lparr>name = ''A'', speed = 1\<rparr>, \<lparr>name = ''B'', speed = 2\<rparr>,
      \<lparr>name = ''C'', speed = 5\<rparr>, \<lparr>name = ''D'', speed = 10\<rparr>]"


section \<open>Integers and lists\<close>

lemma add_int_Some_iff: "add_int a b = Some c \<longleftrightarrow> int_ok (a + b) \<and> c = a + b"
  by (auto simp: add_int_def)

lemma add_int_ok: "int_ok (a + b) \<Longrightarrow> add_int a b = Some (a + b)"
  by (simp add: add_int_def)

lemma map_insort_key: "map f (insort_key f x xs) = insort (f x) (map f xs)"
  by (induction xs) simp_all

lemma map_speed_sort_key: "map speed (sort_key speed w) = sort (map speed w)"
  by (induction w) (simp_all add: map_insort_key)

lemma snoc2_decomp: "2 \<le> length s \<Longrightarrow> \<exists>u a b. s = u @ [a, b]"
proof -
  assume len: "2 \<le> length s"
  then have "s \<noteq> []" by auto
  then obtain v b where s: "s = v @ [b]" by (metis rev_exhaust)
  with len have "v \<noteq> []" by auto
  then obtain u a where "v = u @ [a]" by (metis rev_exhaust)
  with s show ?thesis by auto
qed

lemma sum_list_bb:
  "2 \<le> length (s::int list) \<Longrightarrow>
   sum_list s = sum_list (butlast (butlast s)) + s ! (length s - 2) + s ! (length s - 1)"
proof -
  assume "2 \<le> length s"
  then obtain u a b where "s = u @ [a, b]" using snoc2_decomp by blast
  then show ?thesis by (simp add: nth_append butlast_append)
qed

lemma nth_bb: "k < length s - 2 \<Longrightarrow> butlast (butlast s) ! k = s ! k"
  by (simp add: nth_butlast)

section \<open>The total that crossOptimally returns\<close>

lemma totalShielding_Some:
  "totalShielding w = Some ts \<Longrightarrow>
   ts = speed (w ! 1) + speed (w ! 0) + speed (w ! (length w - 1)) + speed (w ! 1)"
  by (auto simp: totalShielding_def add_int_Some_iff Let_def split: bind_splits)

lemma totalNaive_Some:
  "totalNaive w = Some tn \<Longrightarrow>
   tn = speed (w ! (length w - 1)) + speed (w ! 0) + speed (w ! (length w - 2)) + speed (w ! 0)"
  by (auto simp: totalNaive_def add_int_Some_iff Let_def split: bind_splits)

lemma loopBody_Some:
  assumes "loopBody w t out = Some (t', out')"
  shows "t' = t + min (speed (w ! 1) + speed (w ! 0) + speed (w ! (length w - 1)) + speed (w ! 1))
                      (speed (w ! (length w - 1)) + speed (w ! 0) + speed (w ! (length w - 2)) + speed (w ! 0))"
  using assms
  by (auto simp: loopBody_def add_int_Some_iff dest!: totalShielding_Some totalNaive_Some
      split: bind_splits if_splits)

lemma shieldTotal_step:
  "4 \<le> length w \<Longrightarrow>
   shieldTotal (map speed w) =
     min (speed (w ! 1) + speed (w ! 0) + speed (w ! (length w - 1)) + speed (w ! 1))
         (speed (w ! (length w - 1)) + speed (w ! 0) + speed (w ! (length w - 2)) + speed (w ! 0))
     + shieldTotal (map speed (butlast (butlast w)))"
proof -
  assume len: "4 \<le> length w"
  then have "0 < length w" by auto
  then have "map speed w ! 0 = speed (w ! 0)" by (rule nth_map)
  with len show ?thesis
    by (subst shieldTotal.simps) (simp add: map_butlast Let_def)
qed

lemma crossLoop_total:
  "crossLoop w t out = Some (w', t', out') \<Longrightarrow>
   length w' < 4 \<and> t' + shieldTotal (map speed w') = t + shieldTotal (map speed w)"
proof (induction w t out rule: crossLoop.induct)
  case (1 w t out)
  show ?case
  proof (cases "4 \<le> length w")
    case True
    with "1.prems" obtain t1 out1 where
      body: "loopBody w t out = Some (t1, out1)" and
      rest: "crossLoop (butlast (butlast w)) t1 out1 = Some (w', t', out')"
      by (subst (asm) crossLoop.simps) (auto split: option.splits)
    from "1.IH" [OF True body refl rest]
    have "length w' < 4" and
      "t' + shieldTotal (map speed w') = t1 + shieldTotal (map speed (butlast (butlast w)))"
      by simp_all
    with loopBody_Some [OF body] shieldTotal_step [OF True] show ?thesis by simp
  next
    case False
    with "1.prems" show ?thesis by (subst (asm) crossLoop.simps) auto
  qed
qed

lemma short_list_cases:
  "length w < 4 \<Longrightarrow>
   w = [] \<or> (\<exists>a. w = [a]) \<or> (\<exists>a b. w = [a, b]) \<or> (\<exists>a b c. w = [a, b, c])"
proof -
  assume "length w < 4"
  then have "length w = 0 \<or> length w = 1 \<or> length w = 2 \<or> length w = 3" by arith
  then show ?thesis
    by (auto simp: length_Suc_conv numeral_2_eq_2 numeral_3_eq_3)
qed

lemma baseCases_total:
  assumes "length w < 4" and "baseCases w t out = Some (w', t', out')"
  shows "w' = [] \<and> t' = t + shieldTotal (map speed w)"
proof -
  from short_list_cases [OF assms(1)]
  consider "w = []" | a where "w = [a]" | a b where "w = [a, b]" | a b c where "w = [a, b, c]"
    by blast
  then show ?thesis
  proof cases
    case 1
    with assms(2) show ?thesis
      by (simp add: baseCases_def shieldTotal.simps add_int_Some_iff split: bind_splits)
  next
    case 2
    with assms(2) show ?thesis
      by (simp add: baseCases_def shieldTotal.simps add_int_Some_iff split: bind_splits)
  next
    case 3
    with assms(2) show ?thesis
      by (simp add: baseCases_def shieldTotal.simps add_int_Some_iff split: bind_splits)
  next
    case 4
    with assms(2) show ?thesis
      by (auto simp add: baseCases_def shieldTotal.simps add_int_Some_iff split: bind_splits)
  qed
qed

lemma crossOptimally_Some:
  assumes "crossOptimally w = Some (t, out, w')"
  shows "t = shieldTotal (sort (map speed w)) \<and> w' = []"
proof -
  from assms obtain w1 t1 out1 where
    loop: "crossLoop (sort_key speed w) 0
             [Blank, Banner ''Optimal sequence of bridge crossings:''] = Some (w1, t1, out1)" and
    base: "baseCases w1 t1 out1 = Some (w', t, out)"
    by (auto simp: crossOptimally_def split: bind_splits)
  from crossLoop_total [OF loop] have
    "length w1 < 4" "t1 + shieldTotal (map speed w1) = shieldTotal (sort (map speed w))"
    by (simp_all add: map_speed_sort_key)
  with baseCases_total [OF _ base] show ?thesis by simp
qed

section \<open>The shielding total against the greedy total\<close>

lemma Min_sorted: "sorted (s::int list) \<Longrightarrow> s \<noteq> [] \<Longrightarrow> Min (set s) = s ! 0"
  by (cases s) (auto intro!: Min_eqI)

lemma greedyTotal_sorted:
  "sorted s \<Longrightarrow> 2 \<le> length s \<Longrightarrow>
   greedyTotal s = sum_list s + (int (length s) - 3) * s ! 0"
  using Min_sorted [of s] by (auto simp: greedyTotal_def)

lemma sorted_bb: "sorted (s::int list) \<Longrightarrow> sorted (butlast (butlast s))"
  by (simp add: sorted_butlast)

lemma greedyTotal_step:
  assumes "sorted s" and "4 \<le> length s"
  shows "greedyTotal s =
           greedyTotal (butlast (butlast s)) + s ! (length s - 1) + s ! (length s - 2) + 2 * s ! 0"
proof -
  let ?u = "butlast (butlast s)"
  have len: "length ?u = length s - 2" by simp
  have "greedyTotal ?u = sum_list ?u + (int (length ?u) - 3) * ?u ! 0"
    using assms by (intro greedyTotal_sorted sorted_bb) simp_all
  moreover have "?u ! 0 = s ! 0" using assms(2) by (intro nth_bb) simp
  moreover have "int (length ?u) = int (length s) - 2" using assms(2) by simp
  moreover have "greedyTotal s = sum_list s + (int (length s) - 3) * s ! 0"
    using assms by (intro greedyTotal_sorted) simp_all
  moreover have "sum_list s = sum_list ?u + s ! (length s - 2) + s ! (length s - 1)"
    using assms(2) by (intro sum_list_bb) simp
  ultimately show ?thesis by (simp add: algebra_simps)
qed

lemma shieldTotal_le_greedyTotal: "sorted s \<Longrightarrow> shieldTotal s \<le> greedyTotal s"
proof (induction s rule: shieldTotal.induct)
  case (1 s)
  show ?case
  proof (cases "4 \<le> length s")
    case True
    have "shieldTotal (butlast (butlast s)) \<le> greedyTotal (butlast (butlast s))"
      using "1.IH" [OF True] "1.prems" by (simp add: sorted_bb)
    with greedyTotal_step [OF "1.prems" True] True show ?thesis
      by (subst shieldTotal.simps) simp
  next
    case False
    then have "length s < 4" by simp
    from short_list_cases [OF this] "1.prems" show ?thesis
      by (subst shieldTotal.simps) (auto simp: greedyTotal_def)
  qed
qed

section \<open>crossOptimally returns on the assumed inputs\<close>

lemma sum_list_pos_ge: "\<forall>x\<in>set (xs::int list). 0 < x \<Longrightarrow> 0 \<le> sum_list xs"
  by (induction xs) auto

lemma greedyTotal_ge_second:
  assumes "sorted s" and "\<forall>x\<in>set s. 0 < x" and "2 \<le> length s"
  shows "s ! 1 \<le> greedyTotal s"
proof -
  from assms(3) obtain a b r where s: "s = a # b # r"
    by (cases s; cases "tl s") auto
  with assms(2) have "0 \<le> sum_list r" "0 < a" by (auto intro: sum_list_pos_ge)
  moreover have "greedyTotal s = a + b + sum_list r + (int (length r) - 1) * a"
    using greedyTotal_sorted [OF assms(1,3)] s by (simp add: algebra_simps)
  moreover have "0 \<le> int (length r) * a" using \<open>0 < a\<close> by simp
  ultimately show ?thesis using s by (simp add: algebra_simps)
qed

lemma greedyTotal_nonneg:
  assumes "sorted s" and "\<forall>x\<in>set s. 0 < x"
  shows "0 \<le> greedyTotal s"
proof (cases "2 \<le> length s")
  case True
  from greedyTotal_ge_second [OF assms True] assms(2) True show ?thesis
    by (metis nth_mem less_le_trans less_imp_le Suc_1 Suc_le_lessD)
next
  case False
  then have "length s = 0 \<or> length s = 1" by arith
  with assms(2) show ?thesis
    by (auto simp: greedyTotal_def length_Suc_conv)
qed

lemma int_ok_nonneg: "0 \<le> v \<Longrightarrow> v \<le> INT_MAX \<Longrightarrow> int_ok v"
  by (simp add: int_ok_def INT_MIN_def)

lemma add_int_nonneg: "0 \<le> a + b \<Longrightarrow> a + b \<le> INT_MAX \<Longrightarrow> add_int a b = Some (a + b)"
  by (simp add: add_int_ok int_ok_nonneg)

lemma loopBody_defined:
  assumes len: "4 \<le> length w"
    and srt: "sorted (map speed w)"
    and pos: "\<forall>p\<in>set w. 0 < speed p"
    and t: "0 \<le> t" "t + greedyTotal (map speed w) \<le> INT_MAX"
  shows "\<exists>t1 out1. loopBody w t out = Some (t1, out1) \<and> 0 \<le> t1 \<and>
           t1 + greedyTotal (map speed (butlast (butlast w))) \<le> INT_MAX"
proof -
  let ?s = "map speed w"
  let ?n = "length w"
  let ?a = "speed (w ! 0)" and ?b = "speed (w ! 1)"
  let ?y = "speed (w ! (?n - 2))" and ?z = "speed (w ! (?n - 1))"
  let ?G' = "greedyTotal (map speed (butlast (butlast w)))"
  have ne: "w \<noteq> []" using len by auto
  have idx: "?s ! 0 = ?a" "?s ! 1 = ?b" "?s ! (?n - 2) = ?y" "?s ! (?n - 1) = ?z"
    using len ne by (simp_all add: nth_map)
  have pa: "0 < ?a" and pb: "0 < ?b" and py: "0 < ?y" and pz: "0 < ?z"
    using pos len ne by (simp_all add: nth_mem)
  have "?s ! 1 \<le> ?s ! (?n - 2)" using len by (intro sorted_nth_mono [OF srt]) simp_all
  then have b_y: "?b \<le> ?y" using idx by simp
  have G: "greedyTotal ?s = ?G' + ?z + ?y + 2 * ?a"
    using greedyTotal_step [OF srt] len idx by (simp add: map_butlast)
  have srt': "sorted (butlast (butlast ?s))" using srt by (rule sorted_bb)
  have pos': "\<forall>x\<in>set (butlast (butlast ?s)). 0 < x"
    using pos by (auto dest!: in_set_butlastD)
  have "butlast (butlast ?s) ! 1 = ?s ! 1" using len by (intro nth_bb) simp
  moreover have "butlast (butlast ?s) ! 1 \<le> greedyTotal (butlast (butlast ?s))"
    using len by (intro greedyTotal_ge_second [OF srt' pos']) simp
  ultimately have bG': "?b \<le> ?G'" using idx by (simp add: map_butlast)
  have GM: "greedyTotal ?s \<le> INT_MAX" using t by simp
  have ts: "totalShielding w = Some (?b + ?a + ?z + ?b)"
    using pa pb pz b_y G bG' GM
    by (simp add: totalShielding_def Let_def add_int_nonneg)
  have tn: "totalNaive w = Some (?z + ?a + ?y + ?a)"
    using pa pb py pz b_y G bG' GM
    by (simp add: totalNaive_def Let_def add_int_nonneg)
  show ?thesis
  proof (cases "?b + ?a + ?z + ?b < ?z + ?a + ?y + ?a")
    case True
    moreover have "add_int t (?b + ?a + ?z + ?b) = Some (t + (?b + ?a + ?z + ?b))"
      using True t pa pb pz G bG' b_y by (intro add_int_nonneg) simp_all
    ultimately show ?thesis
      using ts tn t pa pb pz G by (simp add: loopBody_def)
  next
    case False
    moreover have "add_int t (?z + ?a + ?y + ?a) = Some (t + (?z + ?a + ?y + ?a))"
      using t pa py pz pb G bG' by (intro add_int_nonneg) simp_all
    ultimately show ?thesis
      using ts tn t pa py pz G by (simp add: loopBody_def)
  qed
qed

lemma crossLoop_defined:
  assumes "sorted (map speed w)" and "\<forall>p\<in>set w. 0 < speed p"
    and "0 \<le> t" and "t + greedyTotal (map speed w) \<le> INT_MAX"
  shows "\<exists>w' t' out'. crossLoop w t out = Some (w', t', out') \<and> length w' < 4 \<and>
           sorted (map speed w') \<and> (\<forall>p\<in>set w'. 0 < speed p) \<and>
           0 \<le> t' \<and> t' + greedyTotal (map speed w') \<le> INT_MAX"
  using assms
proof (induction w t out rule: crossLoop.induct)
  case (1 w t out)
  show ?case
  proof (cases "4 \<le> length w")
    case True
    from loopBody_defined [OF True "1.prems", of out] obtain t1 out1 where
      body: "loopBody w t out = Some (t1, out1)" and t1: "0 \<le> t1"
        "t1 + greedyTotal (map speed (butlast (butlast w))) \<le> INT_MAX"
      by blast
    have "sorted (map speed (butlast (butlast w)))"
      using "1.prems"(1) by (simp add: map_butlast sorted_bb)
    moreover have "\<forall>p\<in>set (butlast (butlast w)). 0 < speed p"
      using "1.prems"(2) by (auto dest!: in_set_butlastD)
    ultimately obtain w' t' out' where
      "crossLoop (butlast (butlast w)) t1 out1 = Some (w', t', out')"
      "length w' < 4" "sorted (map speed w')" "\<forall>p\<in>set w'. 0 < speed p"
      "0 \<le> t'" "t' + greedyTotal (map speed w') \<le> INT_MAX"
      using "1.IH" [OF True body refl] t1 by blast
    then show ?thesis using True body by (subst crossLoop.simps) simp
  next
    case False
    with "1.prems" show ?thesis by (subst crossLoop.simps) simp
  qed
qed

lemma baseCases_defined:
  assumes "length w < 4" and "sorted (map speed w)" and "\<forall>p\<in>set w. 0 < speed p"
    and "0 \<le> t" and "t + greedyTotal (map speed w) \<le> INT_MAX"
  shows "\<exists>w' t' out'. baseCases w t out = Some (w', t', out')"
proof -
  from short_list_cases [OF assms(1)]
  consider "w = []" | a where "w = [a]" | a b where "w = [a, b]" | a b c where "w = [a, b, c]"
    by blast
  then show ?thesis
  proof cases
    case 1
    with assms show ?thesis by (simp add: baseCases_def add_int_nonneg greedyTotal_def)
  next
    case 2
    with assms show ?thesis by (simp add: baseCases_def add_int_nonneg greedyTotal_def)
  next
    case 3
    with assms have "greedyTotal (map speed w) = speed b" "0 < speed b"
      using greedyTotal_sorted [of "map speed w"] by simp_all
    with assms 3 show ?thesis by (simp add: baseCases_def add_int_nonneg)
  next
    case 4
    with assms have "greedyTotal (map speed w) = speed a + speed b + speed c"
      "0 < speed a" "0 < speed b" "0 < speed c"
      using greedyTotal_sorted [of "map speed w"] by simp_all
    with assms 4 show ?thesis by (simp add: baseCases_def add_int_nonneg)
  qed
qed

lemma sum_list_sort: "sum_list (sort xs) = sum_list (xs::int list)"
  by (metis mset_sort sum_mset_sum_list)

lemma greedyTotal_sort: "greedyTotal (sort xs) = greedyTotal xs"
proof -
  consider "length xs = 0" | "length xs = 1" | "2 \<le> length xs" by arith
  then show ?thesis
  proof cases
    case 1 then show ?thesis by simp
  next
    case 2
    then obtain a where "xs = [a]" by (auto simp: length_Suc_conv)
    then show ?thesis by simp
  next
    case 3 then show ?thesis by (simp add: greedyTotal_def sum_list_sort)
  qed
qed

lemma crossOptimally_defined:
  assumes "\<forall>p\<in>set w. 0 < speed p" and "greedyTotal (map speed w) \<le> INT_MAX"
  shows "\<exists>out. crossOptimally w = Some (shieldTotal (sort (map speed w)), out, [])"
proof -
  let ?w = "sort_key speed w"
  have "sorted (map speed ?w)" by (rule sorted_sort_key)
  moreover have "\<forall>p\<in>set ?w. 0 < speed p" using assms(1) by simp
  moreover have "(0::int) \<le> 0" by simp
  moreover have "0 + greedyTotal (map speed ?w) \<le> INT_MAX"
    using assms(2) by (simp add: map_speed_sort_key greedyTotal_sort)
  ultimately obtain w1 t1 out1 where
    loop: "crossLoop ?w 0 [Blank, Banner ''Optimal sequence of bridge crossings:''] =
             Some (w1, t1, out1)" and
    inv: "length w1 < 4" "sorted (map speed w1)" "\<forall>p\<in>set w1. 0 < speed p"
      "0 \<le> t1" "t1 + greedyTotal (map speed w1) \<le> INT_MAX"
    using crossLoop_defined [of ?w 0] by blast
  from baseCases_defined [OF inv] obtain w2 t2 out2 where
    base: "baseCases w1 t1 out1 = Some (w2, t2, out2)" by blast
  with loop have "crossOptimally w = Some (t2, out2, w2)"
    by (simp add: crossOptimally_def)
  with crossOptimally_Some [OF this] show ?thesis by blast
qed

section \<open>The total that crossNaively returns\<close>

lemma Person_eta [simp]: "\<lparr>name = name p, speed = speed p\<rparr> = (p::Person)"
  by (cases p) simp

lemma findFastest_none:
  "\<forall>p\<in>set ps. speed f \<le> speed p \<Longrightarrow> findFastest ps i (f, fi) = (f, fi)"
  by (induction ps arbitrary: i) auto

lemma findFastest_some:
  "\<exists>p\<in>set ps. speed p < speed f \<Longrightarrow>
   \<exists>k<length ps. findFastest ps i (f, fi) = (ps ! k, i + int k) \<and>
      speed (ps ! k) < speed f \<and> (\<forall>p\<in>set ps. speed (ps ! k) \<le> speed p)"
proof (induction ps arbitrary: i f fi)
  case Nil
  then show ?case by simp
next
  case (Cons p ps)
  show ?case
  proof (cases "speed p < speed f")
    case True
    show ?thesis
    proof (cases "\<exists>q\<in>set ps. speed q < speed p")
      case True
      from Cons.IH [OF this, of "i + 1" i] obtain k where k: "k < length ps"
        "findFastest ps (i + 1) (p, i) = (ps ! k, i + 1 + int k)"
        "speed (ps ! k) < speed p" "\<forall>q\<in>set ps. speed (ps ! k) \<le> speed q"
        by blast
      with \<open>speed p < speed f\<close> show ?thesis
        by (intro exI [of _ "Suc k"]) auto
    next
      case False
      then have "\<forall>q\<in>set ps. speed p \<le> speed q" by auto
      from findFastest_none [OF this] \<open>speed p < speed f\<close> this show ?thesis
        by (intro exI [of _ 0]) auto
    qed
  next
    case False
    with Cons.prems have "\<exists>q\<in>set ps. speed q < speed f" by auto
    from Cons.IH [OF this, of "i + 1" fi] obtain k where k: "k < length ps"
      "findFastest ps (i + 1) (f, fi) = (ps ! k, i + 1 + int k)"
      "speed (ps ! k) < speed f" "\<forall>q\<in>set ps. speed (ps ! k) \<le> speed q"
      by blast
    with False show ?thesis
      by (intro exI [of _ "Suc k"]) auto
  qed
qed

lemma fillQueue_all: "fi < i \<Longrightarrow> fillQueue ps i fi = ps"
  by (induction ps arbitrary: i) auto

lemma fillQueue_skip:
  "k < length ps \<Longrightarrow> fillQueue ps i (i + int k) = take k ps @ drop (Suc k) ps"
proof (induction ps arbitrary: i k)
  case Nil
  then show ?case by simp
next
  case (Cons p ps)
  show ?case
  proof (cases k)
    case 0
    then show ?thesis by (simp add: fillQueue_all)
  next
    case (Suc j)
    with Cons.prems have "j < length ps" by simp
    from Cons.IH [OF this, of "i + 1"] Suc show ?thesis by (simp add: algebra_simps)
  qed
qed

lemma processQueue_Some:
  "processQueue q f t out = Some (t', out') \<Longrightarrow> q \<noteq> [] \<Longrightarrow>
   t' = t + sum_list (map speed q) + (int (length q) - 1) * speed f \<and> int_ok t'"
proof (induction q arbitrary: t out)
  case Nil
  then show ?case by simp
next
  case (Cons p q)
  show ?case
  proof (cases "q = []")
    case True
    with Cons.prems show ?thesis
      by (auto simp: add_int_Some_iff split: bind_splits)
  next
    case False
    with Cons.prems obtain t2 outs where
      "int_ok (t + speed p)" "t2 = t + speed p + speed f"
      "processQueue q f t2 outs = Some (t', out')"
      by (auto simp: add_int_Some_iff split: bind_splits)
    with Cons.IH [OF this(3) False] show ?thesis
      by (auto simp: algebra_simps)
  qed
qed

lemma processQueue_defined:
  "q \<noteq> [] \<Longrightarrow> \<forall>p\<in>set q. 0 < speed p \<Longrightarrow> 0 \<le> speed f \<Longrightarrow> 0 \<le> t \<Longrightarrow>
   t + sum_list (map speed q) + (int (length q) - 1) * speed f \<le> INT_MAX \<Longrightarrow>
   \<exists>out'. processQueue q f t out =
      Some (t + sum_list (map speed q) + (int (length q) - 1) * speed f, out')"
proof (induction q arbitrary: t out)
  case Nil
  then show ?case by simp
next
  case (Cons p q)
  have sq: "0 \<le> sum_list (map speed q)"
    using Cons.prems(2) by (intro sum_list_pos_ge) auto
  have pp: "0 < speed p" using Cons.prems(2) by simp
  show ?case
  proof (cases "q = []")
    case True
    with Cons.prems pp show ?thesis by (simp add: add_int_nonneg)
  next
    case False
    then have lq: "0 \<le> (int (length q) - 1) * speed f"
      using Cons.prems(3) by (cases q) simp_all
    have bound: "t + speed p + speed f + sum_list (map speed q)
                 + (int (length q) - 1) * speed f \<le> INT_MAX"
      using Cons.prems(5) by (simp add: algebra_simps)
    have a1: "add_int t (speed p) = Some (t + speed p)"
      using Cons.prems(3,4) pp sq lq bound by (intro add_int_nonneg) simp_all
    have a2: "add_int (t + speed p) (speed f) = Some (t + speed p + speed f)"
      using Cons.prems(3,4) pp sq lq bound by (intro add_int_nonneg) simp_all
    have "0 \<le> t + speed p + speed f" using Cons.prems(3,4) pp by simp
    from Cons.IH [OF False _ Cons.prems(3) this bound] Cons.prems(2)
    obtain out' where "processQueue q f (t + speed p + speed f)
        (out @ [CrossPair p f, Returns f]) =
        Some (t + speed p + speed f + sum_list (map speed q)
              + (int (length q) - 1) * speed f, out')"
      by auto
    with a1 a2 False show ?thesis by (simp add: algebra_simps)
  qed
qed

lemma sum_list_without:
  "k < length (xs::int list) \<Longrightarrow> sum_list (take k xs @ drop (Suc k) xs) = sum_list xs - xs ! k"
proof -
  assume "k < length xs"
  then have "sum_list xs = sum_list (take k xs @ xs ! k # drop (Suc k) xs)"
    by (simp only: id_take_nth_drop [symmetric])
  then show ?thesis by simp
qed

lemma sum_list_ge: "\<forall>x\<in>set xs. c \<le> x \<Longrightarrow> int (length xs) * c \<le> sum_list xs"
  by (induction xs) (auto simp: algebra_simps)

lemma crossNaively_found:
  assumes "2 \<le> length w" and "\<exists>p\<in>set w. speed p < INT_MAX"
  shows "\<exists>k<length w. (\<forall>p\<in>set w. speed (w ! k) \<le> speed p) \<and> speed (w ! k) < INT_MAX \<and>
     crossNaively w =
       do {
         (t, out) \<leftarrow> processQueue (take k w @ drop (Suc k) w) (w ! k) 0
                       [Blank, FastestOverall (w ! k), Blank,
                        Banner ''Naive sequence of bridge crossings:''];
         Some (t, out, w)
       }"
proof -
  from assms(2) have "\<exists>p\<in>set w. speed p < speed \<lparr>name = ''maxint'', speed = INT_MAX\<rparr>"
    by simp
  from findFastest_some [OF this, of 0 "- 1"] obtain k where k: "k < length w"
    "findFastest w 0 (\<lparr>name = ''maxint'', speed = INT_MAX\<rparr>, - 1) = (w ! k, int k)"
    "speed (w ! k) < INT_MAX" "\<forall>p\<in>set w. speed (w ! k) \<le> speed p"
    by auto
  from fillQueue_skip [OF k(1), of 0] have "fillQueue w 0 (int k) = take k w @ drop (Suc k) w"
    by simp
  with k assms(1) show ?thesis
    by (intro exI [of _ k]) (auto simp: crossNaively_def)
qed

lemma crossNaively_not_found:
  assumes "2 \<le> length w" and "\<forall>p\<in>set w. INT_MAX \<le> speed p"
  shows "crossNaively w = None"
proof -
  let ?f = "\<lparr>name = ''maxint'', speed = INT_MAX\<rparr>"
  let ?out = "[Blank, FastestOverall ?f, Blank, Banner ''Naive sequence of bridge crossings:'']"
  from assms(2) have "\<forall>p\<in>set w. speed ?f \<le> speed p" by simp
  from findFastest_none [OF this] have ff: "findFastest w 0 (?f, - 1) = (?f, - 1)" .
  have fq: "fillQueue w 0 (- 1) = w" by (rule fillQueue_all) simp
  have "processQueue w ?f 0 ?out = None"
  proof (rule ccontr)
    assume "processQueue w ?f 0 ?out \<noteq> None"
    then obtain t' out' where "processQueue w ?f 0 ?out = Some (t', out')" by auto
    moreover have "w \<noteq> []" using assms(1) by auto
    ultimately have t': "t' = sum_list (map speed w) + (int (length w) - 1) * INT_MAX"
      "int_ok t'"
      using processQueue_Some by fastforce+
    have "int (length (map speed w)) * INT_MAX \<le> sum_list (map speed w)"
      using assms(2) by (intro sum_list_ge) simp
    with t' assms(1) show False
      by (simp add: int_ok_def INT_MAX_def)
  qed
  with ff fq assms(1) show ?thesis by (auto simp: crossNaively_def)
qed

lemma greedyTotal_chosen:
  assumes "2 \<le> length w" and "k < length w" and "\<forall>p\<in>set w. speed (w ! k) \<le> speed p"
  shows "sum_list (map speed (take k w @ drop (Suc k) w)) + (int (length w) - 2) * speed (w ! k)
         = greedyTotal (map speed w)"
proof -
  have "Min (set (map speed w)) = speed (w ! k)"
    using assms(2,3) by (intro Min_eqI) auto
  moreover have "sum_list (map speed (take k w @ drop (Suc k) w))
               = sum_list (map speed w) - speed (w ! k)"
    using sum_list_without [of k "map speed w"] assms(2)
    by (simp add: take_map drop_map)
  ultimately show ?thesis using assms(1) by (auto simp: greedyTotal_def algebra_simps)
qed

lemma crossNaively_chosen:
  assumes "2 \<le> length w" and "crossNaively w = Some (t, out, w')"
  shows "w' = w \<and> (\<exists>k<length w. (\<forall>p\<in>set w. speed (w ! k) \<le> speed p) \<and>
           speed (w ! k) < INT_MAX \<and> int_ok t \<and>
           t = sum_list (map speed (take k w @ drop (Suc k) w))
               + (int (length w) - 2) * speed (w ! k))"
proof (cases "\<exists>p\<in>set w. speed p < INT_MAX")
  case True
  from crossNaively_found [OF assms(1) True] obtain k where k: "k < length w"
    "\<forall>p\<in>set w. speed (w ! k) \<le> speed p" "speed (w ! k) < INT_MAX"
    "crossNaively w =
       do {
         (t, out) \<leftarrow> processQueue (take k w @ drop (Suc k) w) (w ! k) 0
                       [Blank, FastestOverall (w ! k), Blank,
                        Banner ''Naive sequence of bridge crossings:''];
         Some (t, out, w)
       }"
    by blast
  let ?q = "take k w @ drop (Suc k) w"
  from k(4) assms(2) have pq: "processQueue ?q (w ! k) 0
     [Blank, FastestOverall (w ! k), Blank, Banner ''Naive sequence of bridge crossings:'']
     = Some (t, out)" and w': "w' = w"
    by (auto split: bind_splits)
  have len: "length ?q = length w - 1" using k(1) by simp
  then have "?q \<noteq> []" using assms(1) by auto
  from processQueue_Some [OF pq this] len assms(1)
  have "t = sum_list (map speed ?q) + (int (length w) - 2) * speed (w ! k)" "int_ok t"
    by (simp_all add: of_nat_diff algebra_simps)
  with k w' show ?thesis by blast
next
  case False
  then have "\<forall>p\<in>set w. INT_MAX \<le> speed p" by auto
  from crossNaively_not_found [OF assms(1) this] assms(2) show ?thesis by simp
qed

lemma crossNaively_Some:
  assumes "crossNaively w = Some (t, out, w')"
  shows "w' = w \<and> t = greedyTotal (map speed w)"
proof (cases "2 \<le> length w")
  case True
  from crossNaively_chosen [OF True assms] greedyTotal_chosen [OF True] show ?thesis
    by auto
next
  case False
  then have "length w = 0 \<or> length w = 1" by arith
  with assms show ?thesis
    by (auto simp: crossNaively_def greedyTotal_def length_Suc_conv)
qed

lemma crossNaively_defined:
  assumes pos: "\<forall>p\<in>set w. 0 < speed p"
    and fit: "2 \<le> length w \<longrightarrow>
              greedyTotal (map speed w) \<le> INT_MAX \<and> (\<exists>p\<in>set w. speed p < INT_MAX)"
  shows "\<exists>out. crossNaively w = Some (greedyTotal (map speed w), out, w)"
proof (cases "2 \<le> length w")
  case True
  with fit have G: "greedyTotal (map speed w) \<le> INT_MAX" and ex: "\<exists>p\<in>set w. speed p < INT_MAX"
    by simp_all
  from crossNaively_found [OF True ex] obtain k where k: "k < length w"
    "\<forall>p\<in>set w. speed (w ! k) \<le> speed p"
    "crossNaively w =
       do {
         (t, out) \<leftarrow> processQueue (take k w @ drop (Suc k) w) (w ! k) 0
                       [Blank, FastestOverall (w ! k), Blank,
                        Banner ''Naive sequence of bridge crossings:''];
         Some (t, out, w)
       }"
    by blast
  let ?q = "take k w @ drop (Suc k) w"
  have len: "int (length ?q) = int (length w) - 1" using k(1) True by simp
  have ne: "?q \<noteq> []" using len True by auto
  have posq: "\<forall>p\<in>set ?q. 0 < speed p"
    using pos by (auto dest: in_set_takeD in_set_dropD)
  have posf: "0 \<le> speed (w ! k)" using pos k(1) by (simp add: less_imp_le)
  have eq: "0 + sum_list (map speed ?q) + (int (length ?q) - 1) * speed (w ! k)
            = greedyTotal (map speed w)"
    using greedyTotal_chosen [OF True k(1,2)] len by simp
  from processQueue_defined [OF ne posq posf, of 0] eq G
  obtain out' where "processQueue ?q (w ! k) 0
     [Blank, FastestOverall (w ! k), Blank, Banner ''Naive sequence of bridge crossings:'']
     = Some (greedyTotal (map speed w), out')"
    by (metis order_refl)
  with k(3) show ?thesis by simp
next
  case False
  then have "length w = 0 \<or> length w = 1" by arith
  then show ?thesis
    by (auto simp: crossNaively_def greedyTotal_def length_Suc_conv)
qed

lemma processQueue_out:
  "processQueue q f t out = Some (t', out') \<Longrightarrow> q \<noteq> [] \<Longrightarrow>
   out' = out @ concat (map (\<lambda>p. [CrossPair p f, Returns f]) (butlast q))
              @ [CrossPair (last q) f]"
proof (induction q arbitrary: t out)
  case Nil
  then show ?case by simp
next
  case (Cons p q)
  show ?case
  proof (cases "q = []")
    case True
    with Cons.prems show ?thesis by (auto split: bind_splits)
  next
    case False
    with Cons.prems obtain t2 where
      "processQueue q f t2 (out @ [CrossPair p f, Returns f]) = Some (t', out')"
      by (auto split: bind_splits)
    from Cons.IH [OF this False] False show ?thesis by simp
  qed
qed

lemma crossNaively_lines:
  assumes "2 \<le> length w" and "crossNaively w = Some (t, out, w')"
  shows "\<exists>k<length w. (\<forall>p\<in>set w. speed (w ! k) \<le> speed p) \<and>
           t = sum_list (map speed (take k w @ drop (Suc k) w))
               + (int (length w) - 2) * speed (w ! k) \<and>
           out = [Blank, FastestOverall (w ! k), Blank,
                  Banner ''Naive sequence of bridge crossings:'']
                 @ concat (map (\<lambda>p. [CrossPair p (w ! k), Returns (w ! k)])
                              (butlast (take k w @ drop (Suc k) w)))
                 @ [CrossPair (last (take k w @ drop (Suc k) w)) (w ! k)]"
proof -
  have ex: "\<exists>p\<in>set w. speed p < INT_MAX"
    using crossNaively_chosen [OF assms] by (metis nth_mem)
  from crossNaively_found [OF assms(1) ex] obtain k where k: "k < length w"
    "\<forall>p\<in>set w. speed (w ! k) \<le> speed p"
    "crossNaively w =
       do {
         (t, out) \<leftarrow> processQueue (take k w @ drop (Suc k) w) (w ! k) 0
                       [Blank, FastestOverall (w ! k), Blank,
                        Banner ''Naive sequence of bridge crossings:''];
         Some (t, out, w)
       }"
    by blast
  let ?q = "take k w @ drop (Suc k) w"
  from k(3) assms(2) have pq: "processQueue ?q (w ! k) 0
     [Blank, FastestOverall (w ! k), Blank, Banner ''Naive sequence of bridge crossings:'']
     = Some (t, out)"
    by (auto split: bind_splits)
  have len: "int (length ?q) = int (length w) - 1" using k(1) assms(1) by simp
  then have ne: "?q \<noteq> []" using assms(1) by auto
  from processQueue_Some [OF pq ne] len
  have "t = sum_list (map speed ?q) + (int (length w) - 2) * speed (w ! k)"
    by (simp add: algebra_simps)
  with processQueue_out [OF pq ne] k(1,2) show ?thesis by blast
qed

section \<open>Slower people, larger totals\<close>

lemma insort_above:
  "list_all2 (\<le>) xs ys \<Longrightarrow> sorted (x # xs) \<Longrightarrow> x \<le> b \<Longrightarrow>
   list_all2 (\<le>) (x # xs) (insort b ys)"
  for x :: "'a::linorder"
proof (induction xs ys arbitrary: x rule: list_all2_induct)
  case Nil
  then show ?case by simp
next
  case (Cons x1 xs y1 ys)
  show ?case
  proof (cases "b \<le> y1")
    case True
    with Cons show ?thesis by simp
  next
    case False
    with Cons.hyps(1) have "x1 \<le> b" by simp
    with Cons.IH [of x1] Cons.prems Cons.hyps(1) False show ?thesis by auto
  qed
qed

lemma insort_below:
  "list_all2 (\<le>) xs ys \<Longrightarrow> sorted (y # ys) \<Longrightarrow> a \<le> y \<Longrightarrow>
   list_all2 (\<le>) (insort a xs) (y # ys)"
  for y :: "'a::linorder"
proof (induction xs ys arbitrary: y rule: list_all2_induct)
  case Nil
  then show ?case by simp
next
  case (Cons x1 xs y1 ys)
  show ?case
  proof (cases "a \<le> x1")
    case True
    with Cons show ?thesis by simp
  next
    case False
    from Cons.prems have "a \<le> y1" by auto
    with Cons.IH [of y1] Cons.prems Cons.hyps(1) False show ?thesis by auto
  qed
qed

lemma insort_mono:
  "list_all2 (\<le>) xs ys \<Longrightarrow> sorted xs \<Longrightarrow> sorted ys \<Longrightarrow> a \<le> b \<Longrightarrow>
   list_all2 (\<le>) (insort a xs) (insort b ys)"
  for a :: "'a::linorder"
proof (induction xs ys rule: list_all2_induct)
  case Nil
  then show ?case by simp
next
  case (Cons x xs y ys)
  consider "a \<le> x" "b \<le> y" | "a \<le> x" "\<not> b \<le> y" | "\<not> a \<le> x" "b \<le> y"
    | "\<not> a \<le> x" "\<not> b \<le> y" by blast
  then show ?case
  proof cases
    case 1
    with Cons show ?thesis by simp
  next
    case 2
    have "list_all2 (\<le>) (x # xs) (insort b ys)"
      using Cons.hyps Cons.prems 2 by (intro insort_above) auto
    with 2 Cons.hyps(1) show ?thesis by simp
  next
    case 3
    have "list_all2 (\<le>) (insort a xs) (y # ys)"
      using Cons.hyps Cons.prems 3 by (intro insort_below) auto
    with 3 Cons.prems show ?thesis by simp
  next
    case 4
    with Cons show ?thesis by simp
  qed
qed

lemma sort_mono:
  "list_all2 (\<le>) xs ys \<Longrightarrow> list_all2 (\<le>) (sort xs) (sort ys)"
  for xs :: "'a::linorder list"
  by (induction xs ys rule: list_all2_induct) (simp_all add: insort_mono)

lemma list_all2_bb:
  "list_all2 P xs ys \<Longrightarrow> list_all2 P (butlast (butlast xs)) (butlast (butlast ys))"
  by (simp add: butlast_conv_take list_all2_takeI list_all2_lengthD)

lemma shieldTotal_mono:
  "list_all2 (\<le>) xs ys \<Longrightarrow> shieldTotal xs \<le> shieldTotal ys"
proof (induction xs arbitrary: ys rule: shieldTotal.induct)
  case (1 s)
  have len: "length ys = length s" using "1.prems" by (simp add: list_all2_lengthD)
  have nth: "\<And>k. k < length s \<Longrightarrow> s ! k \<le> ys ! k"
    using "1.prems" by (simp add: list_all2_nthD)
  show ?case
  proof (cases "4 \<le> length s")
    case True
    have "shieldTotal (butlast (butlast s)) \<le> shieldTotal (butlast (butlast ys))"
      using "1.IH" [OF True] "1.prems" by (simp add: list_all2_bb)
    moreover have "s ! 0 \<le> ys ! 0" "s ! 1 \<le> ys ! 1"
      "s ! (length s - 1) \<le> ys ! (length s - 1)" "s ! (length s - 2) \<le> ys ! (length s - 2)"
      using True by (auto intro!: nth)
    ultimately show ?thesis using True len
      by (subst shieldTotal.simps, subst (2) shieldTotal.simps) (simp add: min_def)
  next
    case False
    then consider "length s = 0" | "length s = 1" | "length s = 2" | "length s = 3" by arith
    then show ?thesis
    proof cases
      case 1 then show ?thesis using len
        by (subst shieldTotal.simps, subst (2) shieldTotal.simps) simp
    next
      case 2 then show ?thesis using len nth [of 0]
        by (subst shieldTotal.simps, subst (2) shieldTotal.simps) simp
    next
      case 3 then show ?thesis using len nth [of 1]
        by (subst shieldTotal.simps, subst (2) shieldTotal.simps) simp
    next
      case 4 then show ?thesis using len nth [of 0] nth [of 1] nth [of 2]
        by (subst shieldTotal.simps, subst (2) shieldTotal.simps) simp
    qed
  qed
qed

lemma sum_list_mono_all2:
  "list_all2 (\<le>) xs ys \<Longrightarrow> sum_list xs \<le> sum_list (ys::int list)"
  by (induction xs ys rule: list_all2_induct) auto

lemma Min_mono_all2:
  assumes "list_all2 (\<le>) xs ys" and "xs \<noteq> []"
  shows "Min (set xs) \<le> Min (set (ys::int list))"
proof -
  have ne: "ys \<noteq> []" using assms by auto
  then have "Min (set ys) \<in> set ys" by (intro Min_in) auto
  then obtain k where k: "k < length ys" "ys ! k = Min (set ys)"
    by (auto simp: in_set_conv_nth)
  from k(1) assms(1) have "xs ! k \<le> ys ! k" by (rule list_all2_nthD2 [rotated])
  moreover from k(1) assms(1) have "k < length xs" by (simp add: list_all2_lengthD)
  then have "Min (set xs) \<le> xs ! k" by (intro Min_le) auto
  ultimately show ?thesis using k(2) by simp
qed

lemma greedyTotal_mono:
  assumes "list_all2 (\<le>) xs ys"
  shows "greedyTotal xs \<le> greedyTotal ys"
proof -
  have len: "length ys = length xs" using assms by (simp add: list_all2_lengthD)
  consider "length xs = 0" | "length xs = 1" | "length xs = 2" | "3 \<le> length xs" by arith
  then show ?thesis
  proof cases
    case 1 with len show ?thesis by (simp add: greedyTotal_def)
  next
    case 2
    with len assms show ?thesis
      by (auto simp: greedyTotal_def length_Suc_conv)
  next
    case 3
    with len obtain a b c d where "xs = [a, b]" "ys = [c, d]"
      by (auto simp: length_Suc_conv numeral_2_eq_2)
    with assms show ?thesis by (auto simp: greedyTotal_def min_def)
  next
    case 4
    then have "xs \<noteq> []" by auto
    from Min_mono_all2 [OF assms this] 4
    have "(int (length xs) - 3) * Min (set xs) \<le> (int (length xs) - 3) * Min (set ys)"
      by (intro mult_left_mono) simp_all
    with sum_list_mono_all2 [OF assms] 4 len show ?thesis
      by (simp add: greedyTotal_def)
  qed
qed

lemma list_all2_update_speed:
  "i < length w \<Longrightarrow> speed (w ! i) \<le> v \<Longrightarrow>
   list_all2 (\<le>) (map speed w) (map speed (w[i := (w ! i)\<lparr>speed := v\<rparr>]))"
  by (auto simp: list_all2_conv_all_nth nth_list_update)

section \<open>The totals depend on the speeds only\<close>

lemma totalShielding_speeds:
  assumes "4 \<le> length w1" and "map speed w1 = map speed w2"
  shows "totalShielding w1 = totalShielding w2"
proof -
  have len: "length w2 = length w1" using assms(2) by (metis length_map)
  have "\<And>k. k < length w1 \<Longrightarrow> speed (w1 ! k) = speed (w2 ! k)"
    using assms(2) len by (metis nth_map)
  moreover have "w1 \<noteq> []" using assms(1) by auto
  ultimately have "speed (w1 ! 0) = speed (w2 ! 0)" "speed (w1 ! 1) = speed (w2 ! 1)"
    "speed (w1 ! (length w1 - 1)) = speed (w2 ! (length w1 - 1))"
    using assms(1) by auto
  with len show ?thesis by (simp add: totalShielding_def Let_def)
qed

lemma totalNaive_speeds:
  assumes "4 \<le> length w1" and "map speed w1 = map speed w2"
  shows "totalNaive w1 = totalNaive w2"
proof -
  have len: "length w2 = length w1" using assms(2) by (metis length_map)
  have "\<And>k. k < length w1 \<Longrightarrow> speed (w1 ! k) = speed (w2 ! k)"
    using assms(2) len by (metis nth_map)
  moreover have "w1 \<noteq> []" using assms(1) by auto
  ultimately have "speed (w1 ! 0) = speed (w2 ! 0)"
    "speed (w1 ! (length w1 - 2)) = speed (w2 ! (length w1 - 2))"
    "speed (w1 ! (length w1 - 1)) = speed (w2 ! (length w1 - 1))"
    using assms(1) by auto
  with len show ?thesis by (simp add: totalNaive_def Let_def)
qed

lemma loopBody_speeds:
  assumes "4 \<le> length w1" and "map speed w1 = map speed w2"
  shows "map_option fst (loopBody w1 t o1) = map_option fst (loopBody w2 t o2)"
  using totalShielding_speeds [OF assms] totalNaive_speeds [OF assms]
  by (auto simp: loopBody_def split: bind_splits)

lemma crossLoop_speeds:
  "map speed w1 = map speed w2 \<Longrightarrow>
   map_option (\<lambda>(w, t, out). (map speed w, t)) (crossLoop w1 t o1) =
   map_option (\<lambda>(w, t, out). (map speed w, t)) (crossLoop w2 t o2)"
proof (induction w1 t o1 arbitrary: w2 o2 rule: crossLoop.induct)
  case (1 w1 t o1)
  have len: "length w2 = length w1" using "1.prems" by (metis length_map)
  show ?case
  proof (cases "4 \<le> length w1")
    case True
    note body = loopBody_speeds [OF True "1.prems", of t o1 o2]
    show ?thesis
    proof (cases "loopBody w1 t o1")
      case None
      with body have "loopBody w2 t o2 = None" by simp
      with None True len show ?thesis
        by (simp add: crossLoop.simps [of w1 t o1] crossLoop.simps [of w2 t o2])
    next
      case (Some r1)
      then obtain t1 out1 where r1: "loopBody w1 t o1 = Some (t1, out1)" by (cases r1) auto
      with body obtain out2 where r2: "loopBody w2 t o2 = Some (t1, out2)"
        by (cases "loopBody w2 t o2") auto
      have "map speed (butlast (butlast w1)) = map speed (butlast (butlast w2))"
        using "1.prems" by (simp add: map_butlast)
      from "1.IH" [OF True r1 refl this, of out2] r1 r2 True len show ?thesis
        by (simp add: crossLoop.simps [of w1 t o1] crossLoop.simps [of w2 t o2])
    qed
  next
    case False
    with len "1.prems" show ?thesis
      by (simp add: crossLoop.simps [of w1 t o1] crossLoop.simps [of w2 t o2])
  qed
qed

lemma baseCases_speeds:
  assumes "map speed w1 = map speed w2"
  shows "map_option (\<lambda>(w, t, out). t) (baseCases w1 t o1) =
         map_option (\<lambda>(w, t, out). t) (baseCases w2 t o2)"
proof -
  have len: "length w2 = length w1" using assms by (metis length_map)
  have nth: "\<And>k. k < length w1 \<Longrightarrow> speed (w1 ! k) = speed (w2 ! k)"
    using assms len by (metis nth_map)
  consider "length w1 = 0" | "length w1 = 1" | "length w1 = 2" | "length w1 = 3"
    | "4 \<le> length w1" by arith
  then show ?thesis
  proof cases
    case 1 with len show ?thesis by (auto simp: baseCases_def split: bind_splits)
  next
    case 2 with len nth [of 0] show ?thesis by (auto simp: baseCases_def split: bind_splits)
  next
    case 3 with len nth [of 1] show ?thesis by (auto simp: baseCases_def split: bind_splits)
  next
    case 4 with len nth [of 0] nth [of 1] nth [of 2] show ?thesis
      by (auto simp: baseCases_def split: bind_splits)
  next
    case 5 with len show ?thesis by (auto simp: baseCases_def split: bind_splits)
  qed
qed

lemma crossOptimally_speeds:
  assumes "mset (map speed w1) = mset (map speed w2)"
  shows "map_option fst (crossOptimally w1) = map_option fst (crossOptimally w2)"
proof -
  let ?out = "[Blank, Banner ''Optimal sequence of bridge crossings:'']"
  have "sort (map speed w1) = sort (map speed w2)"
    using assms by (metis sorted_list_of_multiset_mset)
  then have eq: "map speed (sort_key speed w1) = map speed (sort_key speed w2)"
    by (simp add: map_speed_sort_key)
  note loop = crossLoop_speeds [OF eq, of 0 ?out ?out]
  show ?thesis
  proof (cases "crossLoop (sort_key speed w1) 0 ?out")
    case None
    with loop have "crossLoop (sort_key speed w2) 0 ?out = None" by simp
    with None show ?thesis by (simp add: crossOptimally_def)
  next
    case (Some r1)
    then obtain u1 t1 out1 where
      r1: "crossLoop (sort_key speed w1) 0 ?out = Some (u1, t1, out1)" by (cases r1) auto
    with loop obtain u2 out2 where
      r2: "crossLoop (sort_key speed w2) 0 ?out = Some (u2, t1, out2)"
      and u: "map speed u1 = map speed u2"
      by (cases "crossLoop (sort_key speed w2) 0 ?out") auto
    from baseCases_speeds [OF u, of t1 out1 out2] r1 r2 show ?thesis
      by (cases "baseCases u1 t1 out1"; cases "baseCases u2 t1 out2")
         (auto simp: crossOptimally_def)
  qed
qed

lemma greedyTotal_mset:
  assumes "mset xs = mset ys"
  shows "greedyTotal xs = greedyTotal ys"
proof -
  have "sort xs = sort ys" using assms by (metis sorted_list_of_multiset_mset)
  then show ?thesis by (metis greedyTotal_sort)
qed

lemma crossNaively_total:
  assumes "\<forall>p\<in>set w. 0 < speed p"
  shows "map_option fst (crossNaively w) =
     (if 2 \<le> length w \<longrightarrow>
           greedyTotal (map speed w) \<le> INT_MAX \<and> (\<exists>p\<in>set w. speed p < INT_MAX)
      then Some (greedyTotal (map speed w)) else None)"
proof (cases "2 \<le> length w \<longrightarrow>
           greedyTotal (map speed w) \<le> INT_MAX \<and> (\<exists>p\<in>set w. speed p < INT_MAX)")
  case True
  from crossNaively_defined [OF assms True] True show ?thesis by auto
next
  case False
  then have len: "2 \<le> length w" by simp
  have "crossNaively w = None"
  proof (rule ccontr)
    assume "crossNaively w \<noteq> None"
    then obtain t out w' where run: "crossNaively w = Some (t, out, w')" by auto
    from crossNaively_chosen [OF len run] crossNaively_Some [OF run] False
    show False by (auto simp: int_ok_def)
  qed
  with False show ?thesis by simp
qed

lemma crossNaively_speeds:
  assumes "mset (map speed w1) = mset (map speed w2)" and "\<forall>p\<in>set w1. 0 < speed p"
  shows "map_option fst (crossNaively w1) = map_option fst (crossNaively w2)"
proof -
  have set_eq: "speed ` set w1 = speed ` set w2"
    using assms(1) by (metis set_map set_mset_mset)
  with assms(2) have pos2: "\<forall>p\<in>set w2. 0 < speed p" by (metis (no_types, lifting) imageE imageI)
  have "length w1 = length w2" using assms(1) by (metis length_map size_mset)
  moreover have "(\<exists>p\<in>set w1. speed p < INT_MAX) \<longleftrightarrow> (\<exists>p\<in>set w2. speed p < INT_MAX)"
    using set_eq by (metis (no_types, lifting) imageE imageI)
  ultimately show ?thesis
    using crossNaively_total [OF assms(2)] crossNaively_total [OF pos2]
      greedyTotal_mset [OF assms(1)]
    by simp
qed

section \<open>The instance of the problem statement\<close>

lemmas run_defs = crossOptimally_def crossLoop.simps loopBody_def totalShielding_def
  totalNaive_def baseCases_def shieldingLines_def naiveLines_def crossNaively_def
  add_int_def int_ok_def INT_MAX_def INT_MIN_def

lemma classic_naive:
  "crossNaively classicPeople
   = Some (19,
       [Blank, FastestOverall \<lparr>name = ''A'', speed = 1\<rparr>, Blank,
        Banner ''Naive sequence of bridge crossings:'',
        CrossPair \<lparr>name = ''B'', speed = 2\<rparr> \<lparr>name = ''A'', speed = 1\<rparr>,
        Returns \<lparr>name = ''A'', speed = 1\<rparr>,
        CrossPair \<lparr>name = ''C'', speed = 5\<rparr> \<lparr>name = ''A'', speed = 1\<rparr>,
        Returns \<lparr>name = ''A'', speed = 1\<rparr>,
        CrossPair \<lparr>name = ''D'', speed = 10\<rparr> \<lparr>name = ''A'', speed = 1\<rparr>],
       classicPeople)"
  by (simp add: classicPeople_def run_defs)

lemma classic_optimal:
  "crossOptimally classicPeople
   = Some (17,
       [Blank, Banner ''Optimal sequence of bridge crossings:'',
        CrossPair \<lparr>name = ''B'', speed = 2\<rparr> \<lparr>name = ''A'', speed = 1\<rparr>,
        Returns \<lparr>name = ''A'', speed = 1\<rparr>,
        CrossPair \<lparr>name = ''D'', speed = 10\<rparr> \<lparr>name = ''C'', speed = 5\<rparr>,
        Returns \<lparr>name = ''B'', speed = 2\<rparr>,
        CrossPair \<lparr>name = ''B'', speed = 2\<rparr> \<lparr>name = ''A'', speed = 1\<rparr>],
       [])"
  by (simp add: classicPeople_def run_defs)

lemma classic_loopBody:
  "loopBody classicPeople 0 [] =
     Some (15,
       [CrossPair \<lparr>name = ''B'', speed = 2\<rparr> \<lparr>name = ''A'', speed = 1\<rparr>,
        Returns \<lparr>name = ''A'', speed = 1\<rparr>,
        CrossPair \<lparr>name = ''D'', speed = 10\<rparr> \<lparr>name = ''C'', speed = 5\<rparr>,
        Returns \<lparr>name = ''B'', speed = 2\<rparr>])"
  by (simp add: classicPeople_def loopBody_def totalShielding_def totalNaive_def
      shieldingLines_def add_int_def int_ok_def INT_MAX_def INT_MIN_def)

lemma classic_positive: "positiveSpeeds classicPeople"
  by (simp add: positiveSpeeds_def classicPeople_def INT_MAX_def)

lemma classic_greedyTotal: "greedyTotal (map speed classicPeople) = 19"
  by (simp add: greedyTotal_def classicPeople_def)

lemma classic_documented: "documented classicPeople"
  by (simp add: documented_def classic_positive classic_greedyTotal INT_MAX_def)

lemma greedyTotal_fits:
  assumes "positiveSpeeds w" and "crossNaively w = Some (tn, outn, wn)"
  shows "greedyTotal (map speed w) \<le> INT_MAX"
proof (cases "2 \<le> length w")
  case True
  from crossNaively_chosen [OF True assms(2)] crossNaively_Some [OF assms(2)]
  show ?thesis by (auto simp: int_ok_def)
next
  case False
  then have "length w = 0 \<or> length w = 1" by arith
  with assms(1) show ?thesis
    by (auto simp: greedyTotal_def positiveSpeeds_def length_Suc_conv INT_MAX_def)
qed

lemma documented_pos: "documented w \<Longrightarrow> \<forall>p\<in>set w. 0 < speed p"
  by (simp add: documented_def positiveSpeeds_def)

lemma documented_has_fast:
  assumes "documented w" and "2 \<le> length w"
  shows "\<exists>p\<in>set w. speed p < INT_MAX"
proof -
  let ?s = "sort (map speed w)"
  have "?s ! 1 \<le> greedyTotal ?s"
    using assms documented_pos [OF assms(1)]
    by (intro greedyTotal_ge_second) auto
  also have "\<dots> < INT_MAX" using assms(1) by (simp add: greedyTotal_sort documented_def)
  finally have "?s ! 1 < INT_MAX" .
  moreover have "?s ! 1 \<in> set ?s" using assms(2) by (intro nth_mem) simp
  ultimately show ?thesis by auto
qed

lemma documented_naive:
  assumes "documented w"
  shows "\<exists>out. crossNaively w = Some (greedyTotal (map speed w), out, w)"
  using assms documented_has_fast [OF assms]
  by (intro crossNaively_defined documented_pos) (auto simp: documented_def)

lemma documented_optimal:
  assumes "documented w"
  shows "\<exists>out. crossOptimally w = Some (shieldTotal (sort (map speed w)), out, [])"
  using assms
  by (intro crossOptimally_defined documented_pos) (auto simp: documented_def)

lemma classic_slower_B:
  "classicPeople[1 := (classicPeople ! 1)\<lparr>speed := 3\<rparr>] =
     [\<lparr>name = ''A'', speed = 1\<rparr>, \<lparr>name = ''B'', speed = 3\<rparr>,
      \<lparr>name = ''C'', speed = 5\<rparr>, \<lparr>name = ''D'', speed = 10\<rparr>]"
  by (simp add: classicPeople_def)

lemma classic_slower_B_naive:
  "map_option fst (crossNaively
     [\<lparr>name = ''A'', speed = 1\<rparr>, \<lparr>name = ''B'', speed = 3\<rparr>,
      \<lparr>name = ''C'', speed = 5\<rparr>, \<lparr>name = ''D'', speed = 10\<rparr>]) = Some 20"
  by (simp add: run_defs)

lemma classic_slower_B_optimal:
  "map_option fst (crossOptimally
     [\<lparr>name = ''A'', speed = 1\<rparr>, \<lparr>name = ''B'', speed = 3\<rparr>,
      \<lparr>name = ''C'', speed = 5\<rparr>, \<lparr>name = ''D'', speed = 10\<rparr>]) = Some 20"
  by (simp add: run_defs)

lemma sorted_take_drop:
  assumes "sorted (map speed w)" and "p \<in> set (take k w)" and "q \<in> set (drop k w)"
  shows "speed p \<le> speed q"
proof -
  have "sorted (map speed (take k w) @ map speed (drop k w))"
    using assms(1) by (simp flip: map_append)
  with assms(2,3) show ?thesis by (auto simp: sorted_append)
qed

lemma sort_order_irrelevant:
  assumes "sorted (map speed ws)" and "mset ws = mset w"
  shows "crossOptimally ws =
           do {
             (u, t, out) \<leftarrow> crossLoop ws 0
                              [Blank, Banner ''Optimal sequence of bridge crossings:''];
             (u', t', out') \<leftarrow> baseCases u t out;
             Some (t', out', u')
           }"
    and "map_option fst (crossOptimally ws) = map_option fst (crossOptimally w)"
proof -
  show "crossOptimally ws =
           do {
             (u, t, out) \<leftarrow> crossLoop ws 0
                              [Blank, Banner ''Optimal sequence of bridge crossings:''];
             (u', t', out') \<leftarrow> baseCases u t out;
             Some (t', out', u')
           }"
    using assms(1) by (simp add: crossOptimally_def sort_key_id_if_sorted)
  have "mset (map speed ws) = mset (map speed w)"
    using assms(2) by (metis mset_map)
  then show "map_option fst (crossOptimally ws) = map_option fst (crossOptimally w)"
    by (rule crossOptimally_speeds)
qed

section \<open>The claims\<close>

text \<open>
  C1. For every roster of people with positive speeds, the total returned by
  \<open>crossOptimally\<close> is at most the total returned by \<open>crossNaively\<close> on the same
  roster: whenever \<open>crossNaively\<close> returns a total (no sum leaves the range of
  \<open>int\<close>), \<open>crossOptimally\<close> returns one too, and it is not larger.
\<close>

theorem optimal_le_naive:
  assumes "positiveSpeeds w" and "crossNaively w = Some (tn, outn, wn)"
  shows "\<exists>to outo. crossOptimally w = Some (to, outo, []) \<and> to \<le> tn"
proof -
  have pos: "\<forall>p\<in>set w. 0 < speed p" using assms(1) by (simp add: positiveSpeeds_def)
  from crossOptimally_defined [OF pos greedyTotal_fits [OF assms]] obtain outo where
    "crossOptimally w = Some (shieldTotal (sort (map speed w)), outo, [])" by blast
  moreover have "shieldTotal (sort (map speed w)) \<le> greedyTotal (sort (map speed w))"
    by (intro shieldTotal_le_greedyTotal) simp
  moreover have "tn = greedyTotal (map speed w)" using crossNaively_Some [OF assms(2)] by simp
  ultimately show ?thesis by (auto simp: greedyTotal_sort)
qed

theorem optimal_le_naive_witness:
  "positiveSpeeds classicPeople \<and>
   (\<exists>to outo. crossOptimally classicPeople = Some (to, outo, []) \<and> to \<le> 19)"
  using optimal_le_naive [OF classic_positive classic_naive] classic_positive by simp

text \<open>
  C2. On the four people of the problem statement (A, B, C and D with speeds 1, 2, 5 and
  10), \<open>crossOptimally\<close> returns 17 and \<open>crossNaively\<close> returns 19. The theorem also
  gives the lines each of them prints and the vector each of them leaves behind.
\<close>

theorem classic_instance:
  "crossOptimally [\<lparr>name = ''A'', speed = 1\<rparr>, \<lparr>name = ''B'', speed = 2\<rparr>,
                   \<lparr>name = ''C'', speed = 5\<rparr>, \<lparr>name = ''D'', speed = 10\<rparr>]
   = Some (17,
       [Blank, Banner ''Optimal sequence of bridge crossings:'',
        CrossPair \<lparr>name = ''B'', speed = 2\<rparr> \<lparr>name = ''A'', speed = 1\<rparr>,
        Returns \<lparr>name = ''A'', speed = 1\<rparr>,
        CrossPair \<lparr>name = ''D'', speed = 10\<rparr> \<lparr>name = ''C'', speed = 5\<rparr>,
        Returns \<lparr>name = ''B'', speed = 2\<rparr>,
        CrossPair \<lparr>name = ''B'', speed = 2\<rparr> \<lparr>name = ''A'', speed = 1\<rparr>],
       [])
  \<and> crossNaively [\<lparr>name = ''A'', speed = 1\<rparr>, \<lparr>name = ''B'', speed = 2\<rparr>,
                   \<lparr>name = ''C'', speed = 5\<rparr>, \<lparr>name = ''D'', speed = 10\<rparr>]
   = Some (19,
       [Blank, FastestOverall \<lparr>name = ''A'', speed = 1\<rparr>, Blank,
        Banner ''Naive sequence of bridge crossings:'',
        CrossPair \<lparr>name = ''B'', speed = 2\<rparr> \<lparr>name = ''A'', speed = 1\<rparr>,
        Returns \<lparr>name = ''A'', speed = 1\<rparr>,
        CrossPair \<lparr>name = ''C'', speed = 5\<rparr> \<lparr>name = ''A'', speed = 1\<rparr>,
        Returns \<lparr>name = ''A'', speed = 1\<rparr>,
        CrossPair \<lparr>name = ''D'', speed = 10\<rparr> \<lparr>name = ''A'', speed = 1\<rparr>],
       [\<lparr>name = ''A'', speed = 1\<rparr>, \<lparr>name = ''B'', speed = 2\<rparr>,
        \<lparr>name = ''C'', speed = 5\<rparr>, \<lparr>name = ''D'', speed = 10\<rparr>])"
  using classic_optimal classic_naive by (simp add: classicPeople_def)

text \<open>
  C3 as stated says that the main loop of \<open>crossOptimally\<close> takes the shielding
  branch when the two costs are equal. It does not: the test is
  \<open>totalShielding < totalNaive\<close>, so a tie goes to the else branch. For the speeds
  1, 2, 3 and 4 both costs are 9, and the lines printed are those of the naive branch
  (D and A cross, A returns, C and A cross, A returns).
\<close>

theorem tie_takes_pairwise_branch:
  "totalShielding [\<lparr>name = ''A'', speed = 1\<rparr>, \<lparr>name = ''B'', speed = 2\<rparr>,
                   \<lparr>name = ''C'', speed = 3\<rparr>, \<lparr>name = ''D'', speed = 4\<rparr>] = Some 9
   \<and> totalNaive [\<lparr>name = ''A'', speed = 1\<rparr>, \<lparr>name = ''B'', speed = 2\<rparr>,
                 \<lparr>name = ''C'', speed = 3\<rparr>, \<lparr>name = ''D'', speed = 4\<rparr>] = Some 9
   \<and> crossOptimally [\<lparr>name = ''A'', speed = 1\<rparr>, \<lparr>name = ''B'', speed = 2\<rparr>,
                     \<lparr>name = ''C'', speed = 3\<rparr>, \<lparr>name = ''D'', speed = 4\<rparr>]
     = Some (11,
         [Blank, Banner ''Optimal sequence of bridge crossings:'',
          CrossPair \<lparr>name = ''D'', speed = 4\<rparr> \<lparr>name = ''A'', speed = 1\<rparr>,
          Returns \<lparr>name = ''A'', speed = 1\<rparr>,
          CrossPair \<lparr>name = ''C'', speed = 3\<rparr> \<lparr>name = ''A'', speed = 1\<rparr>,
          Returns \<lparr>name = ''A'', speed = 1\<rparr>,
          CrossPair \<lparr>name = ''B'', speed = 2\<rparr> \<lparr>name = ''A'', speed = 1\<rparr>],
         [])"
  by (simp add: run_defs)

text \<open>
  C3, amended. In each round of the main loop of \<open>crossOptimally\<close> (at least four
  people left) the shielding branch is taken only when the shielding cost is strictly
  smaller than the pairwise cost; when the two costs are equal, or the pairwise cost is
  smaller, the pairwise branch is taken. Either way the two slowest people are removed
  and the loop goes on with the new total and output.
\<close>

theorem loop_branch_choice:
  assumes "totalShielding w = Some ts" and "totalNaive w = Some tn"
    and "int_ok (totalSpeed + min ts tn)"
  shows "(ts < tn \<longrightarrow>
            loopBody w totalSpeed out = Some (totalSpeed + ts, out @ shieldingLines w))
       \<and> (tn \<le> ts \<longrightarrow>
            loopBody w totalSpeed out = Some (totalSpeed + tn, out @ naiveLines w))
       \<and> (4 \<le> length w \<longrightarrow>
            crossLoop w totalSpeed out =
              (if ts < tn
               then crossLoop (butlast (butlast w)) (totalSpeed + ts) (out @ shieldingLines w)
               else crossLoop (butlast (butlast w)) (totalSpeed + tn) (out @ naiveLines w)))"
proof (cases "ts < tn")
  case True
  then have "min ts tn = ts" by simp
  with assms True
  have "loopBody w totalSpeed out = Some (totalSpeed + ts, out @ shieldingLines w)"
    by (simp add: loopBody_def add_int_def)
  with True show ?thesis by (subst crossLoop.simps) simp
next
  case False
  then have "min ts tn = tn" by simp
  with assms False
  have "loopBody w totalSpeed out = Some (totalSpeed + tn, out @ naiveLines w)"
    by (simp add: loopBody_def add_int_def)
  with False show ?thesis by (subst crossLoop.simps) simp
qed

theorem loop_branch_choice_witness:
  "loopBody [\<lparr>name = ''A'', speed = 1\<rparr>, \<lparr>name = ''B'', speed = 2\<rparr>,
             \<lparr>name = ''C'', speed = 3\<rparr>, \<lparr>name = ''D'', speed = 4\<rparr>] 0 []
   = Some (9,
       [CrossPair \<lparr>name = ''D'', speed = 4\<rparr> \<lparr>name = ''A'', speed = 1\<rparr>,
        Returns \<lparr>name = ''A'', speed = 1\<rparr>,
        CrossPair \<lparr>name = ''C'', speed = 3\<rparr> \<lparr>name = ''A'', speed = 1\<rparr>,
        Returns \<lparr>name = ''A'', speed = 1\<rparr>])
   \<and> loopBody [\<lparr>name = ''A'', speed = 1\<rparr>, \<lparr>name = ''B'', speed = 2\<rparr>,
               \<lparr>name = ''C'', speed = 5\<rparr>, \<lparr>name = ''D'', speed = 10\<rparr>] 0 []
   = Some (15,
       [CrossPair \<lparr>name = ''B'', speed = 2\<rparr> \<lparr>name = ''A'', speed = 1\<rparr>,
        Returns \<lparr>name = ''A'', speed = 1\<rparr>,
        CrossPair \<lparr>name = ''D'', speed = 10\<rparr> \<lparr>name = ''C'', speed = 5\<rparr>,
        Returns \<lparr>name = ''B'', speed = 2\<rparr>])"
  using loop_branch_choice [of "[\<lparr>name = ''A'', speed = 1\<rparr>, \<lparr>name = ''B'', speed = 2\<rparr>,
             \<lparr>name = ''C'', speed = 3\<rparr>, \<lparr>name = ''D'', speed = 4\<rparr>]" 9 9 0 "[]"]
    loop_branch_choice [of "[\<lparr>name = ''A'', speed = 1\<rparr>, \<lparr>name = ''B'', speed = 2\<rparr>,
             \<lparr>name = ''C'', speed = 5\<rparr>, \<lparr>name = ''D'', speed = 10\<rparr>]" 15 17 0 "[]"]
  by (simp add: totalShielding_def totalNaive_def naiveLines_def shieldingLines_def
      add_int_def int_ok_def INT_MAX_def INT_MIN_def)

text \<open>
  C4. With nobody waiting both functions return 0 and print no crossing; with one
  person of speed \<open>s\<close> both return \<open>s\<close>; with two people both return the larger of
  the two speeds. The speeds are values of type \<open>int\<close>; for two people, not both are
  \<open>INT_MAX\<close> (the total is then not below \<open>MAXINT\<close>, which the header of the source
  file excludes, and \<open>crossNaively\<close> would add \<open>INT_MAX\<close> to itself).
\<close>

theorem small_rosters:
  "crossOptimally [] = Some (0, [Blank, Banner ''Optimal sequence of bridge crossings:''], [])
   \<and> filter isEvent [Blank, Banner ''Optimal sequence of bridge crossings:''] = []
   \<and> crossNaively [] = Some (0, [], [])
   \<and> (int_ok (speed p) \<longrightarrow>
        crossOptimally [p] =
          Some (speed p, [Blank, Banner ''Optimal sequence of bridge crossings:'', Crosses p], [])
        \<and> crossNaively [p] = Some (speed p, [], [p]))
   \<and> (int_ok (speed p) \<and> int_ok (speed q) \<and> (speed p < INT_MAX \<or> speed q < INT_MAX) \<longrightarrow>
        (\<exists>out. crossOptimally [p, q] = Some (max (speed p) (speed q), out, []))
        \<and> (\<exists>out. crossNaively [p, q] = Some (max (speed p) (speed q), out, [p, q])))"
proof -
  have n0: "crossOptimally [] = Some (0, [Blank, Banner ''Optimal sequence of bridge crossings:''], [])"
    "crossNaively [] = Some (0, [], [])"
    by (simp_all add: run_defs)
  have n1: "crossOptimally [p] =
          Some (speed p, [Blank, Banner ''Optimal sequence of bridge crossings:'', Crosses p], [])"
        "crossNaively [p] = Some (speed p, [], [p])" if "int_ok (speed p)"
    using that by (simp_all add: crossOptimally_def crossLoop.simps baseCases_def crossNaively_def add_int_def)
  have n2o: "\<exists>out. crossOptimally [p, q] = Some (max (speed p) (speed q), out, [])"
    if "int_ok (speed p)" "int_ok (speed q)"
    using that by (simp add: crossOptimally_def crossLoop.simps baseCases_def add_int_def max_def)
  have n2n: "\<exists>out. crossNaively [p, q] = Some (max (speed p) (speed q), out, [p, q])"
    if "int_ok (speed p)" "int_ok (speed q)" "speed p < INT_MAX \<or> speed q < INT_MAX"
    using that by (auto simp: crossNaively_def add_int_def max_def)
  from n0 n1 n2o n2n show ?thesis by simp
qed

theorem small_rosters_witness:
  "crossOptimally [\<lparr>name = ''A'', speed = 1\<rparr>] =
     Some (1, [Blank, Banner ''Optimal sequence of bridge crossings:'',
               Crosses \<lparr>name = ''A'', speed = 1\<rparr>], [])
   \<and> crossNaively [\<lparr>name = ''A'', speed = 1\<rparr>] = Some (1, [], [\<lparr>name = ''A'', speed = 1\<rparr>])
   \<and> (\<exists>out. crossOptimally [\<lparr>name = ''A'', speed = 1\<rparr>, \<lparr>name = ''D'', speed = 10\<rparr>]
              = Some (10, out, []))
   \<and> (\<exists>out. crossNaively [\<lparr>name = ''A'', speed = 1\<rparr>, \<lparr>name = ''D'', speed = 10\<rparr>]
              = Some (10, out, [\<lparr>name = ''A'', speed = 1\<rparr>, \<lparr>name = ''D'', speed = 10\<rparr>]))"
  using small_rosters [of "\<lparr>name = ''A'', speed = 1\<rparr>" "\<lparr>name = ''D'', speed = 10\<rparr>"]
  by (simp add: int_ok_def INT_MAX_def INT_MIN_def)

text \<open>
  C5. For every roster of at least two people, the total \<open>crossNaively\<close> returns is
  the sum of the speeds of everybody but one person \<open>k\<close> of minimum speed, plus
  \<open>N - 2\<close> times the speed of \<open>k\<close>: the lines printed are one crossing with \<open>k\<close> for
  each of the others, in their order in the vector, and a return of \<open>k\<close> after each
  crossing but the last. On the inputs the source file assumes \<open>crossNaively\<close> does
  return a total, and leaves \<open>waitingPeople\<close> as it was.
\<close>

theorem naive_total_formula:
  assumes "2 \<le> length w"
  shows "(crossNaively w = Some (t, out, w') \<longrightarrow>
           (\<exists>k<length w. (\<forall>p\<in>set w. speed (w ! k) \<le> speed p) \<and>
              t = sum_list (map speed (take k w @ drop (Suc k) w))
                  + (int (length w) - 2) * speed (w ! k) \<and>
              out = [Blank, FastestOverall (w ! k), Blank,
                     Banner ''Naive sequence of bridge crossings:'']
                    @ concat (map (\<lambda>p. [CrossPair p (w ! k), Returns (w ! k)])
                                 (butlast (take k w @ drop (Suc k) w)))
                    @ [CrossPair (last (take k w @ drop (Suc k) w)) (w ! k)]))
       \<and> (documented w \<longrightarrow> (\<exists>t out. crossNaively w = Some (t, out, w)))"
proof -
  have "\<exists>t out. crossNaively w = Some (t, out, w)" if "documented w"
    using documented_naive [OF that] by blast
  with crossNaively_lines [OF assms, of t out w'] show ?thesis by blast
qed

theorem naive_total_formula_witness:
  "documented classicPeople
   \<and> (\<exists>t out. crossNaively classicPeople = Some (t, out, classicPeople))
   \<and> (\<exists>k<length classicPeople.
        19 = sum_list (map speed (take k classicPeople @ drop (Suc k) classicPeople))
             + (int (length classicPeople) - 2) * speed (classicPeople ! k))"
proof -
  have "2 \<le> length classicPeople" by (simp add: classicPeople_def)
  from naive_total_formula [OF this, of 19 _ classicPeople] classic_naive classic_documented
  show ?thesis by auto
qed

text \<open>
  C6. When exactly three people are left, the main loop of \<open>crossOptimally\<close> does
  nothing, and the code after it adds \<open>speed[0] + speed[1] + speed[2]\<close> to the total,
  prints three lines (slowest and fastest cross, fastest returns, middle and fastest
  cross) and empties the vector. The hypotheses say that the three sums the code
  computes are values of type \<open>int\<close>.
\<close>

theorem three_remaining:
  assumes "length w = 3"
    and "int_ok (speed (w ! 0) + speed (w ! 1))"
    and "int_ok (speed (w ! 0) + speed (w ! 1) + speed (w ! 2))"
    and "int_ok (totalSpeed + (speed (w ! 0) + speed (w ! 1) + speed (w ! 2)))"
  shows "crossLoop w totalSpeed out = Some (w, totalSpeed, out)
     \<and> baseCases w totalSpeed out =
         Some ([], totalSpeed + (speed (w ! 0) + speed (w ! 1) + speed (w ! 2)),
               out @ [CrossPair (w ! 2) (w ! 0), Returns (w ! 0), CrossPair (w ! 1) (w ! 0)])"
proof -
  from assms(1) obtain a b c where "w = [a, b, c]"
    by (auto simp: length_Suc_conv numeral_3_eq_3)
  with assms show ?thesis
    by (simp add: crossLoop.simps baseCases_def add_int_def)
qed

theorem three_remaining_witness:
  "baseCases [\<lparr>name = ''A'', speed = 1\<rparr>, \<lparr>name = ''B'', speed = 2\<rparr>,
              \<lparr>name = ''C'', speed = 5\<rparr>] 0 []
   = Some ([], 8,
       [CrossPair \<lparr>name = ''C'', speed = 5\<rparr> \<lparr>name = ''A'', speed = 1\<rparr>,
        Returns \<lparr>name = ''A'', speed = 1\<rparr>,
        CrossPair \<lparr>name = ''B'', speed = 2\<rparr> \<lparr>name = ''A'', speed = 1\<rparr>])"
  using three_remaining [of "[\<lparr>name = ''A'', speed = 1\<rparr>, \<lparr>name = ''B'', speed = 2\<rparr>,
              \<lparr>name = ''C'', speed = 5\<rparr>]" 0 "[]"]
  by (simp add: int_ok_def INT_MAX_def INT_MIN_def)

text \<open>
  C7. The total of either function depends only on the multiset of speeds, so
  reordering the people (or renaming them) never changes it. For \<open>crossOptimally\<close>
  the two runs return the same total or both overflow. For \<open>crossNaively\<close> the same
  holds when the speeds are positive; for arbitrary speeds two runs that both return a
  total return the same one.
\<close>

theorem totals_depend_on_speeds_only:
  assumes "mset (map speed w1) = mset (map speed w2)"
  shows "map_option fst (crossOptimally w1) = map_option fst (crossOptimally w2)
     \<and> (positiveSpeeds w1 \<longrightarrow>
          map_option fst (crossNaively w1) = map_option fst (crossNaively w2))
     \<and> (crossNaively w1 = Some (t1, out1, r1) \<longrightarrow> crossNaively w2 = Some (t2, out2, r2)
          \<longrightarrow> t1 = t2)"
proof -
  have "map_option fst (crossNaively w1) = map_option fst (crossNaively w2)"
    if "positiveSpeeds w1"
    using that by (intro crossNaively_speeds [OF assms]) (simp add: positiveSpeeds_def)
  moreover have "t1 = t2"
    if "crossNaively w1 = Some (t1, out1, r1)" "crossNaively w2 = Some (t2, out2, r2)"
    using crossNaively_Some [OF that(1)] crossNaively_Some [OF that(2)]
      greedyTotal_mset [OF assms] by simp
  ultimately show ?thesis using crossOptimally_speeds [OF assms] by blast
qed

theorem totals_depend_on_speeds_only_witness:
  "map_option fst (crossOptimally
      [\<lparr>name = ''D'', speed = 10\<rparr>, \<lparr>name = ''A'', speed = 1\<rparr>,
       \<lparr>name = ''C'', speed = 5\<rparr>, \<lparr>name = ''B'', speed = 2\<rparr>]) = Some 17
   \<and> map_option fst (crossNaively
      [\<lparr>name = ''D'', speed = 10\<rparr>, \<lparr>name = ''A'', speed = 1\<rparr>,
       \<lparr>name = ''C'', speed = 5\<rparr>, \<lparr>name = ''B'', speed = 2\<rparr>]) = Some 19"
proof -
  have "mset (map speed classicPeople) =
        mset (map speed [\<lparr>name = ''D'', speed = 10\<rparr>, \<lparr>name = ''A'', speed = 1\<rparr>,
                         \<lparr>name = ''C'', speed = 5\<rparr>, \<lparr>name = ''B'', speed = 2\<rparr>])"
    by (simp add: classicPeople_def)
  from totals_depend_on_speeds_only [OF this] classic_positive classic_optimal classic_naive
  show ?thesis by simp
qed

text \<open>
  C8. Replacing the speed of one person by a larger one, with everybody else unchanged,
  never decreases the total returned by \<open>crossNaively\<close>, and never decreases the total
  returned by \<open>crossOptimally\<close>.
\<close>

theorem totals_monotone:
  assumes "i < length w" and "speed (w ! i) \<le> v"
  shows "(crossNaively w = Some (tn, outn, rn) \<longrightarrow>
          crossNaively (w[i := (w ! i)\<lparr>speed := v\<rparr>]) = Some (tn', outn', rn') \<longrightarrow> tn \<le> tn')
     \<and> (crossOptimally w = Some (to, outo, ro) \<longrightarrow>
          crossOptimally (w[i := (w ! i)\<lparr>speed := v\<rparr>]) = Some (to', outo', ro') \<longrightarrow> to \<le> to')"
proof -
  let ?w' = "w[i := (w ! i)\<lparr>speed := v\<rparr>]"
  note le = list_all2_update_speed [OF assms]
  have "tn \<le> tn'"
    if "crossNaively w = Some (tn, outn, rn)" "crossNaively ?w' = Some (tn', outn', rn')"
    using crossNaively_Some [OF that(1)] crossNaively_Some [OF that(2)] greedyTotal_mono [OF le]
    by simp
  moreover have "to \<le> to'"
    if "crossOptimally w = Some (to, outo, ro)" "crossOptimally ?w' = Some (to', outo', ro')"
    using crossOptimally_Some [OF that(1)] crossOptimally_Some [OF that(2)]
      shieldTotal_mono [OF sort_mono [OF le]]
    by simp
  ultimately show ?thesis by blast
qed

theorem totals_monotone_witness:
  "map_option fst (crossNaively classicPeople) = Some 19
   \<and> map_option fst (crossNaively (classicPeople[1 := (classicPeople ! 1)\<lparr>speed := 3\<rparr>]))
       = Some 20
   \<and> map_option fst (crossOptimally classicPeople) = Some 17
   \<and> map_option fst (crossOptimally (classicPeople[1 := (classicPeople ! 1)\<lparr>speed := 3\<rparr>]))
       = Some 20
   \<and> (19::int) \<le> 20 \<and> (17::int) \<le> 20"
proof -
  let ?w' = "classicPeople[1 := (classicPeople ! 1)\<lparr>speed := 3\<rparr>]"
  have h: "1 < length classicPeople" "speed (classicPeople ! 1) \<le> 3"
    by (simp_all add: classicPeople_def)
  have n': "map_option fst (crossNaively ?w') = Some 20"
    unfolding classic_slower_B by (rule classic_slower_B_naive)
  then obtain outn' rn' where rn': "crossNaively ?w' = Some (20, outn', rn')" by auto
  have o': "map_option fst (crossOptimally ?w') = Some 20"
    unfolding classic_slower_B by (rule classic_slower_B_optimal)
  then obtain outo' ro' where ro': "crossOptimally ?w' = Some (20, outo', ro')" by auto
  from totals_monotone [OF h, of 19 _ _ 20 outn' rn' 17 _ _ 20 outo' ro']
    classic_naive classic_optimal rn' ro'
  have "(19::int) \<le> 20 \<and> (17::int) \<le> 20" by simp
  with classic_naive classic_optimal n' o' show ?thesis by simp
qed

text \<open>
  C9 as stated says that both functions change the roster they run on, and that
  \<open>crossNaively\<close> in particular modifies \<open>waitingPeople\<close>. It does not:
  \<open>crossNaively\<close> copies the people into a local queue and only pops that queue. On
  the instance of the problem statement \<open>waitingPeople\<close> is the same vector after the
  call, and \<open>main\<close>, which calls \<open>crossOptimally\<close> right after \<open>crossNaively\<close> on
  the same object, gets 19 and 17 without reading the file again.
\<close>

theorem naive_keeps_waitingPeople:
  "crossNaively classicPeople
   = Some (19,
       [Blank, FastestOverall \<lparr>name = ''A'', speed = 1\<rparr>, Blank,
        Banner ''Naive sequence of bridge crossings:'',
        CrossPair \<lparr>name = ''B'', speed = 2\<rparr> \<lparr>name = ''A'', speed = 1\<rparr>,
        Returns \<lparr>name = ''A'', speed = 1\<rparr>,
        CrossPair \<lparr>name = ''C'', speed = 5\<rparr> \<lparr>name = ''A'', speed = 1\<rparr>,
        Returns \<lparr>name = ''A'', speed = 1\<rparr>,
        CrossPair \<lparr>name = ''D'', speed = 10\<rparr> \<lparr>name = ''A'', speed = 1\<rparr>],
       classicPeople)
   \<and> runBoth classicPeople = Some (19, 17, [])"
  using classic_naive classic_optimal by (simp add: runBoth_def)

text \<open>
  C9, amended. Only \<open>crossOptimally\<close> changes the roster it runs on: it sorts
  \<open>waitingPeople\<close> and pops every entry, so that a function called after it sees an
  empty roster (\<open>crossNaively\<close> then returns 0) unless the roster is loaded again.
  \<open>crossNaively\<close> leaves \<open>waitingPeople\<close> as it was, so \<open>crossOptimally\<close> called after
  it on the same object returns what it returns on the roster as loaded.
\<close>

theorem roster_after_each_solver:
  assumes "crossNaively w = Some (tn, outn, wn)"
    and "crossOptimally wn = Some (to, outo, wo)"
  shows "wn = w \<and> wo = [] \<and> crossOptimally w = Some (to, outo, [])
     \<and> runBoth w = Some (tn, to, []) \<and> crossNaively wo = Some (0, [], [])"
proof -
  from crossNaively_Some [OF assms(1)] have wn: "wn = w" by simp
  from crossOptimally_Some [OF assms(2)] have wo: "wo = []" by simp
  from assms wn wo show ?thesis by (simp add: runBoth_def crossNaively_def)
qed

theorem roster_after_each_solver_witness:
  "crossOptimally classicPeople = Some (17,
       [Blank, Banner ''Optimal sequence of bridge crossings:'',
        CrossPair \<lparr>name = ''B'', speed = 2\<rparr> \<lparr>name = ''A'', speed = 1\<rparr>,
        Returns \<lparr>name = ''A'', speed = 1\<rparr>,
        CrossPair \<lparr>name = ''D'', speed = 10\<rparr> \<lparr>name = ''C'', speed = 5\<rparr>,
        Returns \<lparr>name = ''B'', speed = 2\<rparr>,
        CrossPair \<lparr>name = ''B'', speed = 2\<rparr> \<lparr>name = ''A'', speed = 1\<rparr>], [])
   \<and> runBoth classicPeople = Some (19, 17, [])
   \<and> crossNaively [] = Some (0, [], [])"
  using roster_after_each_solver [OF classic_naive classic_optimal] by simp

text \<open>
  C10. Whenever \<open>crossOptimally\<close> returns, \<open>waitingPeople\<close> is empty, and on the
  inputs the source file assumes it does return. Each round of the main loop goes on
  with the vector without its last two entries, which in the sorted vector are two
  slowest people; the code after the loop empties a vector of at most three people.
\<close>

theorem optimal_empties_waitingPeople:
  "(crossOptimally w = Some (t, out, w') \<longrightarrow> w' = [])
   \<and> (documented w \<longrightarrow> (\<exists>t out. crossOptimally w = Some (t, out, [])))
   \<and> (4 \<le> length u \<longrightarrow> loopBody u ts lines = Some (ts', lines') \<longrightarrow>
        crossLoop u ts lines = crossLoop (take (length u - 2) u) ts' lines'
        \<and> (sorted (map speed u) \<longrightarrow>
             (\<forall>p\<in>set (take (length u - 2) u). \<forall>q\<in>set (drop (length u - 2) u).
                speed p \<le> speed q)))
   \<and> (length u < 4 \<longrightarrow> baseCases u ts lines = Some (u', ts', lines') \<longrightarrow> u' = [])"
proof -
  have "w' = []" if "crossOptimally w = Some (t, out, w')"
    using crossOptimally_Some [OF that] by simp
  moreover have "\<exists>t out. crossOptimally w = Some (t, out, [])" if "documented w"
    using documented_optimal [OF that] by blast
  moreover have "crossLoop u ts lines = crossLoop (take (length u - 2) u) ts' lines'"
    if "4 \<le> length u" "loopBody u ts lines = Some (ts', lines')"
  proof -
    have "butlast (butlast u) = take (length u - 2) u"
      by (simp add: butlast_conv_take min_def numeral_2_eq_2)
    with that show ?thesis by (subst crossLoop.simps) simp
  qed
  moreover have "\<forall>p\<in>set (take (length u - 2) u). \<forall>q\<in>set (drop (length u - 2) u).
                speed p \<le> speed q" if "sorted (map speed u)"
    using sorted_take_drop [OF that] by blast
  moreover have "u' = []" if "length u < 4" "baseCases u ts lines = Some (u', ts', lines')"
    using baseCases_total [OF that] by simp
  ultimately show ?thesis by blast
qed

theorem optimal_empties_waitingPeople_witness:
  "documented classicPeople
   \<and> (\<exists>t out. crossOptimally classicPeople = Some (t, out, []))
   \<and> crossLoop classicPeople 0 [] =
       crossLoop [\<lparr>name = ''A'', speed = 1\<rparr>, \<lparr>name = ''B'', speed = 2\<rparr>] 15
         [CrossPair \<lparr>name = ''B'', speed = 2\<rparr> \<lparr>name = ''A'', speed = 1\<rparr>,
          Returns \<lparr>name = ''A'', speed = 1\<rparr>,
          CrossPair \<lparr>name = ''D'', speed = 10\<rparr> \<lparr>name = ''C'', speed = 5\<rparr>,
          Returns \<lparr>name = ''B'', speed = 2\<rparr>]"
proof -
  have "4 \<le> length classicPeople" "sorted (map speed classicPeople)"
    "take (length classicPeople - 2) classicPeople =
       [\<lparr>name = ''A'', speed = 1\<rparr>, \<lparr>name = ''B'', speed = 2\<rparr>]"
    by (simp_all add: classicPeople_def)
  with optimal_empties_waitingPeople [where w = classicPeople and u = classicPeople
      and ts = 0 and lines = "[]"] classic_documented classic_loopBody
  show ?thesis by simp
qed

end
